theory Spec2Isabelle
  imports Main "HOL-Library.Word"
begin

section \<open>The cyclic barrier of barrier.go as an interleaving state machine\<close>

text \<open>
  The package is a concurrent object: goroutines call \<^verbatim>\<open>Await\<close> and \<^verbatim>\<open>Abort\<close> on one
  shared \<^verbatim>\<open>Barrier\<close>. The model keeps the shared memory (the struct, the channels it
  points to) in one state and gives every goroutine an activation frame that says which
  statement of barrier.go it executes next and what its local variables hold. One step
  of the model is one statement of one goroutine; a schedule is a list of such steps.
  Interleavings of statements are all there is to observe: \<^verbatim>\<open>count\<close> and \<^verbatim>\<open>done\<close> are only
  read and written between \<^verbatim>\<open>b.Lock()\<close> and \<^verbatim>\<open>b.Unlock()\<close>, and the two channels are only
  used through channel operations, so the program has no data race and the Go memory
  model makes its executions sequentially consistent. The mutex is part of the state: a
  \<^verbatim>\<open>b.Lock()\<close> is a step that can only be taken when the mutex is free.

  Go values used by the package:
  \<^item> \<^verbatim>\<open>int64\<close> is a 64-bit word; \<^verbatim>\<open>count--\<close> wraps, \<^verbatim>\<open>count < 0\<close> is the signed test.
    The parameter \<^verbatim>\<open>n int\<close> of \<^verbatim>\<open>New\<close> is taken on a 64-bit target, where
    \<^verbatim>\<open>int64(n)\<close> is the identity.
  \<^item> a value of the interface type \<^verbatim>\<open>error\<close> is \<^verbatim>\<open>nil\<close> (\<open>None\<close>) or an error.
  \<^item> a \<^verbatim>\<open>chan bool\<close> on which nobody ever sends (the fields are unexported and the
    package only closes and receives) is either open or closed: a receive on an open
    one is not ready, a receive on a closed one is ready, closing a closed one panics.
  \<^item> a \<^verbatim>\<open>Callback\<close> is \<^verbatim>\<open>nil\<close> or a function that returns an error and may change
    the caller's own data \<open>'w\<close>; it is run as one step and does not use the barrier.
    A callback that panics, does not return or calls the barrier is outside the model.
\<close>

datatype error = ErrBarrierAborted | ErrBarrierMisused | ErrCallback string

type_synonym 'w Callback = "('w \<Rightarrow> error option \<times> 'w) option"

type_synonym chan = nat

record Barrier =
  mu :: bool  \<comment> \<open>the embedded \<^verbatim>\<open>sync.Mutex\<close>: \<open>True\<close> when locked\<close>
  n :: "64 word"
  count :: "64 word"
  done_ch :: chan  \<comment> \<open>the field \<^verbatim>\<open>done\<close> (a reserved word here)\<close>
  abort :: chan

text \<open>
  The frame of a goroutine: the statement it is about to execute (named after the
  function and the statement of barrier.go) with the locals that are live there.
\<close>

datatype 'w frame =
    Idle  \<comment> \<open>not inside a call\<close>
  | Await_aborted "'w Callback"  \<comment> \<open>line 53: \<^verbatim>\<open>if b.aborted()\<close>\<close>
  | Await_Lock "'w Callback"  \<comment> \<open>line 57: \<^verbatim>\<open>b.Lock()\<close>\<close>
  | Await_dec "'w Callback"  \<comment> \<open>line 58: \<^verbatim>\<open>b.count--\<close>\<close>
  | Await_count "'w Callback"  \<comment> \<open>line 59: \<^verbatim>\<open>count := b.count\<close>\<close>
  | Await_done "'w Callback" "64 word"  \<comment> \<open>line 60: \<^verbatim>\<open>done := b.done\<close>\<close>
  | Await_Unlock "'w Callback" "64 word" chan  \<comment> \<open>line 61: \<^verbatim>\<open>b.Unlock()\<close>\<close>
  | Await_branch "'w Callback" "64 word" chan  \<comment> \<open>lines 64 and 70: the tests on \<^verbatim>\<open>count\<close>\<close>
  | Await_Abort  \<comment> \<open>line 65: \<^verbatim>\<open>b.Abort()\<close>\<close>
  | Await_misused  \<comment> \<open>line 66: \<^verbatim>\<open>return ErrBarrierMisused\<close>\<close>
  | wait_select chan  \<comment> \<open>line 95: \<^verbatim>\<open>select\<close> on \<^verbatim>\<open>done\<close> and \<^verbatim>\<open>b.abort\<close>\<close>
  | wait_aborted  \<comment> \<open>line 97: \<^verbatim>\<open>if b.aborted()\<close>\<close>
  | Await_cb "'w Callback"  \<comment> \<open>lines 75-78: \<^verbatim>\<open>if cb != nil { err = cb() }\<close>\<close>
  | reset_Lock "error option"  \<comment> \<open>line 110: \<^verbatim>\<open>b.Lock()\<close>\<close>
  | reset_close "error option"  \<comment> \<open>line 111: \<^verbatim>\<open>close(b.done)\<close>\<close>
  | reset_make "error option"  \<comment> \<open>line 112: \<^verbatim>\<open>b.done = make(chan bool)\<close>\<close>
  | reset_count "error option"  \<comment> \<open>line 113: \<^verbatim>\<open>b.count = b.n\<close>\<close>
  | reset_Unlock "error option"  \<comment> \<open>line 114: \<^verbatim>\<open>b.Unlock()\<close>\<close>
  | Await_return "error option"  \<comment> \<open>line 80: \<^verbatim>\<open>return err\<close>\<close>
  | Returned "error option"  \<comment> \<open>\<^verbatim>\<open>Await\<close> has returned this value\<close>

record 'w state =
  bar :: Barrier
  closed :: "chan set"  \<comment> \<open>the channels that have been closed\<close>
  nchan :: nat  \<comment> \<open>the next channel \<^verbatim>\<open>make\<close> returns\<close>
  frames :: "nat \<Rightarrow> 'w frame"  \<comment> \<open>one frame per goroutine\<close>
  env :: 'w  \<comment> \<open>the data the callbacks work on\<close>

text \<open>
  What can stop a step: the goroutine is blocked (on the mutex or in the
  \<^verbatim>\<open>select\<close>), the program panics (a goroutine that panics takes the program down),
  or the schedule asks for a step the goroutine cannot take.
\<close>

datatype fault = Blocked | Panic | No_step

subsection \<open>Channels and the mutex\<close>

definition make_chan :: "'w state \<Rightarrow> chan \<times> 'w state" where
  "make_chan s = (nchan s, s\<lparr>nchan := Suc (nchan s)\<rparr>)"

definition close_chan :: "chan \<Rightarrow> 'w state \<Rightarrow> fault + 'w state" where
  "close_chan c s =
     (if c \<in> closed s then Inl Panic else Inr (s\<lparr>closed := insert c (closed s)\<rparr>))"

definition Lock :: "'w state \<Rightarrow> fault + 'w state" where
  "Lock s = (if mu (bar s) then Inl Blocked else Inr (s\<lparr>bar := (bar s)\<lparr>mu := True\<rparr>\<rparr>))"

definition Unlock :: "'w state \<Rightarrow> fault + 'w state" where
  "Unlock s = (if mu (bar s) then Inr (s\<lparr>bar := (bar s)\<lparr>mu := False\<rparr>\<rparr>) else Inl Panic)"

subsection \<open>The functions of barrier.go\<close>

text \<open>\<^verbatim>\<open>New\<close>: two fresh channels, the counter at \<^verbatim>\<open>n\<close>, nobody inside a call.\<close>

definition New :: "64 word \<Rightarrow> 'w \<Rightarrow> 'w state" where
  "New k w =
     \<lparr>bar = \<lparr>mu = False, n = k, count = k, done_ch = 0, abort = 1\<rparr>,
      closed = {}, nchan = 2, frames = (\<lambda>_. Idle), env = w\<rparr>"

text \<open>\<^verbatim>\<open>Abort\<close> is the single statement \<^verbatim>\<open>close(b.abort)\<close>.\<close>

definition Abort :: "'w state \<Rightarrow> fault + 'w state" where
  "Abort s = close_chan (abort (bar s)) s"

text \<open>\<^verbatim>\<open>aborted\<close>: the \<^verbatim>\<open>select\<close> with a \<^verbatim>\<open>default\<close> never blocks.\<close>

definition aborted :: "'w state \<Rightarrow> bool" where
  "aborted s = (abort (bar s) \<in> closed s)"

definition goto :: "nat \<Rightarrow> 'w frame \<Rightarrow> 'w state \<Rightarrow> 'w state" where
  "goto t f s = s\<lparr>frames := (frames s)(t := f)\<rparr>"

definition then_goto :: "nat \<Rightarrow> 'w frame \<Rightarrow> fault + 'w state \<Rightarrow> fault + 'w state" where
  "then_goto t f r = (case r of Inl e \<Rightarrow> Inl e | Inr s \<Rightarrow> Inr (goto t f s))"

text \<open>
  One statement of goroutine \<open>t\<close>, whose frame is the second argument. The
  \<^verbatim>\<open>select\<close> of \<^verbatim>\<open>wait\<close> is not here: which ready case it takes is the scheduler's
  choice, see \<open>step\<close>.
\<close>

fun exec :: "nat \<Rightarrow> 'w frame \<Rightarrow> 'w state \<Rightarrow> fault + 'w state" where
  "exec t (Await_aborted cb) s =
     (if aborted s then Inr (goto t (Returned (Some ErrBarrierAborted)) s)
      else Inr (goto t (Await_Lock cb) s))"
| "exec t (Await_Lock cb) s = then_goto t (Await_dec cb) (Lock s)"
| "exec t (Await_dec cb) s =
     Inr (goto t (Await_count cb) (s\<lparr>bar := (bar s)\<lparr>count := count (bar s) - 1\<rparr>\<rparr>))"
| "exec t (Await_count cb) s = Inr (goto t (Await_done cb (count (bar s))) s)"
| "exec t (Await_done cb c) s = Inr (goto t (Await_Unlock cb c (done_ch (bar s))) s)"
| "exec t (Await_Unlock cb c d) s = then_goto t (Await_branch cb c d) (Unlock s)"
| "exec t (Await_branch cb c d) s =
     (if c <s 0 then Inr (goto t Await_Abort s)
      else if 0 <s c then Inr (goto t (wait_select d) s)
      else Inr (goto t (Await_cb cb) s))"
| "exec t Await_Abort s = then_goto t Await_misused (Abort s)"
| "exec t Await_misused s = Inr (goto t (Returned (Some ErrBarrierMisused)) s)"
| "exec t wait_aborted s =
     (if aborted s then Inr (goto t (Returned (Some ErrBarrierAborted)) s)
      else Inr (goto t (Returned None) s))"
| "exec t (Await_cb cb) s =
     (case cb of
        None \<Rightarrow> Inr (goto t (reset_Lock None) s)
      | Some f \<Rightarrow> Inr (goto t (reset_Lock (fst (f (env s)))) (s\<lparr>env := snd (f (env s))\<rparr>)))"
| "exec t (reset_Lock e) s = then_goto t (reset_close e) (Lock s)"
| "exec t (reset_close e) s = then_goto t (reset_make e) (close_chan (done_ch (bar s)) s)"
| "exec t (reset_make e) s =
     (case make_chan s of (c, s') \<Rightarrow> Inr (goto t (reset_count e) (s'\<lparr>bar := (bar s')\<lparr>done_ch := c\<rparr>\<rparr>)))"
| "exec t (reset_count e) s =
     Inr (goto t (reset_Unlock e) (s\<lparr>bar := (bar s)\<lparr>count := n (bar s)\<rparr>\<rparr>))"
| "exec t (reset_Unlock e) s = then_goto t (Await_return e) (Unlock s)"
| "exec t (Await_return e) s = Inr (goto t (Returned e) s)"
| "exec t (wait_select d) s = Inl No_step"
| "exec t Idle s = Inl No_step"
| "exec t (Returned e) s = Inl No_step"

text \<open>
  What the scheduler can do: let a goroutine that is not inside a call enter
  \<^verbatim>\<open>Await(cb)\<close>; let some goroutine outside \<^verbatim>\<open>Await\<close> run \<^verbatim>\<open>Abort()\<close>; let a
  goroutine execute its next statement; let a goroutine in the \<^verbatim>\<open>select\<close> of
  \<^verbatim>\<open>wait\<close> take the case \<^verbatim>\<open><-done\<close> or the case \<^verbatim>\<open><-b.abort\<close> (Go picks any
  ready case; with none ready the goroutine stays blocked).
\<close>

datatype 'w action =
    Call_Await nat "'w Callback"
  | Call_Abort
  | Step nat
  | Recv_done nat
  | Recv_abort nat

definition in_call :: "'w frame \<Rightarrow> bool" where
  "in_call f = (case f of Idle \<Rightarrow> False | Returned e \<Rightarrow> False | _ \<Rightarrow> True)"

fun step :: "'w action \<Rightarrow> 'w state \<Rightarrow> fault + 'w state" where
  "step (Call_Await t cb) s =
     (if in_call (frames s t) then Inl No_step else Inr (goto t (Await_aborted cb) s))"
| "step Call_Abort s = Abort s"
| "step (Step t) s = exec t (frames s t) s"
| "step (Recv_done t) s =
     (case frames s t of
        wait_select d \<Rightarrow> if d \<in> closed s then Inr (goto t wait_aborted s) else Inl Blocked
      | _ \<Rightarrow> Inl No_step)"
| "step (Recv_abort t) s =
     (case frames s t of
        wait_select d \<Rightarrow>
          if aborted s then Inr (goto t (Returned (Some ErrBarrierAborted)) s) else Inl Blocked
      | _ \<Rightarrow> Inl No_step)"

fun run :: "'w action list \<Rightarrow> 'w state \<Rightarrow> fault + 'w state" where
  "run [] s = Inr s"
| "run (a # as) s = (case step a s of Inl e \<Rightarrow> Inl e | Inr s' \<Rightarrow> run as s')"

subsection \<open>Who acts, and who holds the mutex\<close>

text \<open>
  The goroutine an action belongs to; \<open>Call_Abort\<close> belongs to none of the goroutines
  that are inside \<^verbatim>\<open>Await\<close>.
\<close>

fun actor :: "'w action \<Rightarrow> nat option" where
  "actor (Call_Await t cb) = Some t"
| "actor Call_Abort = None"
| "actor (Step t) = Some t"
| "actor (Recv_done t) = Some t"
| "actor (Recv_abort t) = Some t"

text \<open>
  The statements between \<^verbatim>\<open>b.Lock()\<close> and \<^verbatim>\<open>b.Unlock()\<close>, in \<^verbatim>\<open>Await\<close> and in
  \<^verbatim>\<open>reset\<close>, and the goroutines that are about to execute one of them.
\<close>

fun holds_lock :: "'w frame \<Rightarrow> bool" where
  "holds_lock (Await_dec cb) = True"
| "holds_lock (Await_count cb) = True"
| "holds_lock (Await_done cb c) = True"
| "holds_lock (Await_Unlock cb c d) = True"
| "holds_lock (reset_close e) = True"
| "holds_lock (reset_make e) = True"
| "holds_lock (reset_count e) = True"
| "holds_lock (reset_Unlock e) = True"
| "holds_lock _ = False"

definition holders :: "'w state \<Rightarrow> nat set" where
  "holders s = {t. holds_lock (frames s t)}"

text \<open>
  Mutual exclusion: the mutex is locked exactly when one goroutine is inside a critical
  section, and then no second one is.
\<close>

definition mutex_inv :: "'w state \<Rightarrow> bool" where
  "mutex_inv s \<longleftrightarrow> (if mu (bar s) then \<exists>t. holders s = {t} else holders s = {})"

text \<open>
  The channels: both channels of the barrier have been made, they are different, only
  channels that exist have been closed, and the current round channel \<^verbatim>\<open>b.done\<close> is
  closed only while the goroutine inside \<^verbatim>\<open>reset\<close> stands between \<^verbatim>\<open>close(b.done)\<close>
  and \<^verbatim>\<open>b.done = make(chan bool)\<close>.
\<close>

fun is_make :: "'w frame \<Rightarrow> bool" where
  "is_make (reset_make e) = True"
| "is_make _ = False"

definition chan_ok :: "'w state \<Rightarrow> bool" where
  "chan_ok s \<longleftrightarrow>
     abort (bar s) < nchan s \<and> done_ch (bar s) < nchan s \<and>
     abort (bar s) \<noteq> done_ch (bar s) \<and> (\<forall>c\<in>closed s. c < nchan s) \<and>
     (\<not> mu (bar s) \<longrightarrow> done_ch (bar s) \<notin> closed s)"

definition local_ok :: "'w frame \<Rightarrow> 'w state \<Rightarrow> bool" where
  "local_ok f s \<longleftrightarrow> (holds_lock f \<longrightarrow> (done_ch (bar s) \<in> closed s \<longleftrightarrow> is_make f))"

definition wf_state :: "'w state \<Rightarrow> bool" where
  "wf_state s \<longleftrightarrow> mutex_inv s \<and> chan_ok s \<and> (\<forall>t. local_ok (frames s t) s)"

subsection \<open>The paths of a call\<close>

text \<open>
  What the last arriver executes after its callback: the five statements of \<^verbatim>\<open>reset\<close>,
  then \<^verbatim>\<open>return err\<close>; \<open>err\<close> is carried along. The value and the effect of
  \<^verbatim>\<open>if cb != nil { err = cb() }\<close> on the data \<open>w\<close>.
\<close>

definition after_cb :: "error option \<Rightarrow> 'w frame list" where
  "after_cb e =
     [reset_Lock e, reset_close e, reset_make e, reset_count e, reset_Unlock e,
      Await_return e, Returned e]"

definition cb_result :: "'w Callback \<Rightarrow> 'w \<Rightarrow> error option" where
  "cb_result cb w = (case cb of None \<Rightarrow> None | Some f \<Rightarrow> fst (f w))"

definition cb_effect :: "'w Callback \<Rightarrow> 'w \<Rightarrow> 'w" where
  "cb_effect cb w = (case cb of None \<Rightarrow> w | Some f \<Rightarrow> snd (f w))"

text \<open>
  A goroutine inside \<^verbatim>\<open>wait\<close>; a goroutine on the path only a last arriver takes.
\<close>

fun waiting :: "'w frame \<Rightarrow> bool" where
  "waiting (wait_select d) = True"
| "waiting wait_aborted = True"
| "waiting _ = False"

fun completing :: "'w frame \<Rightarrow> bool" where
  "completing (Await_cb cb) = True"
| "completing (reset_Lock e) = True"
| "completing (reset_close e) = True"
| "completing (reset_make e) = True"
| "completing (reset_count e) = True"
| "completing (reset_Unlock e) = True"
| "completing (Await_return e) = True"
| "completing _ = False"

text \<open>
  A call that has found (or, still inside the critical section, is about to read) a
  negative counter and has not executed its \<^verbatim>\<open>b.Abort()\<close> yet.
\<close>

fun misuse_pending :: "'w state \<Rightarrow> 'w frame \<Rightarrow> bool" where
  "misuse_pending s (Await_count cb) = (count (bar s) <s 0)"
| "misuse_pending s (Await_done cb c) = (c <s 0)"
| "misuse_pending s (Await_Unlock cb c d) = (c <s 0)"
| "misuse_pending s (Await_branch cb c d) = (c <s 0)"
| "misuse_pending s Await_Abort = True"
| "misuse_pending s _ = False"

text \<open>
  The range of the counter, and the invariant that holds it there: outside the range
  the barrier is aborted or some call is on its way to abort it.
\<close>

definition in_range :: "'w state \<Rightarrow> bool" where
  "in_range s \<longleftrightarrow> 0 \<le>s count (bar s) \<and> count (bar s) \<le>s n (bar s)"

definition range_inv :: "'w state \<Rightarrow> bool" where
  "range_inv s \<longleftrightarrow> aborted s \<or> (\<exists>t. misuse_pending s (frames s t)) \<or> in_range s"

text \<open>
  A barrier made with a party size \<open>k\<close> that is not positive: as long as the counter
  has not wrapped around, every call is on the misuse path or returns an error. After
  \<open>m\<close> statements the counter is at least \<open>k - m\<close>.
\<close>

fun misuse_only :: "'w state \<Rightarrow> 'w frame \<Rightarrow> bool" where
  "misuse_only s Idle = True"
| "misuse_only s (Await_aborted cb) = True"
| "misuse_only s (Await_Lock cb) = True"
| "misuse_only s (Await_dec cb) = True"
| "misuse_only s (Await_count cb) = (count (bar s) <s 0)"
| "misuse_only s (Await_done cb c) = (c <s 0)"
| "misuse_only s (Await_Unlock cb c d) = (c <s 0)"
| "misuse_only s (Await_branch cb c d) = (c <s 0)"
| "misuse_only s Await_Abort = True"
| "misuse_only s Await_misused = True"
| "misuse_only s (Returned r) = (r = Some ErrBarrierAborted \<or> r = Some ErrBarrierMisused)"
| "misuse_only s _ = False"

definition below :: "64 word \<Rightarrow> nat \<Rightarrow> 'w state \<Rightarrow> bool" where
  "below k m s \<longleftrightarrow>
     sint k - int m \<le> sint (count (bar s)) \<and> sint (count (bar s)) \<le> sint k \<and>
     (\<forall>t. misuse_only s (frames s t))"

subsection \<open>Concrete executions\<close>

text \<open>
  The frame of one goroutine; a goroutine that calls \<^verbatim>\<open>Await(cb)\<close> and runs alone up to
  and including the tests on \<^verbatim>\<open>count\<close> (line 53, lines 57 to 61, lines 64 and 70); the
  seven further statements of a last arriver (the callback, \<^verbatim>\<open>reset\<close>, the return); a
  callback that counts its runs and fails.
\<close>

definition frame_of :: "nat \<Rightarrow> 'w state \<Rightarrow> 'w frame" where
  "frame_of t s = frames s t"

definition arrive :: "nat \<Rightarrow> 'w Callback \<Rightarrow> 'w action list" where
  "arrive t cb = [Call_Await t cb, Step t, Step t, Step t, Step t, Step t, Step t, Step t]"

definition complete :: "nat \<Rightarrow> 'w action list" where
  "complete t = [Step t, Step t, Step t, Step t, Step t, Step t, Step t]"

definition failing_cb :: "nat Callback" where
  "failing_cb = Some (\<lambda>w. (Some (ErrCallback ''disk full''), Suc w))"

section \<open>Basic facts\<close>

lemmas defs = goto_def then_goto_def Lock_def Unlock_def close_chan_def make_chan_def Abort_def aborted_def

lemmas eval = goto_def then_goto_def Lock_def Unlock_def close_chan_def make_chan_def
  Abort_def aborted_def in_call_def New_def arrive_def complete_def frame_of_def

lemma exec_frames_other:
  "exec t f s = Inr s' \<Longrightarrow> u \<noteq> t \<Longrightarrow> frames s' u = frames s u"
  by (cases f) (auto simp: defs split: if_splits option.splits)

lemma step_frames_other:
  "step a s = Inr s' \<Longrightarrow> actor a \<noteq> Some u \<Longrightarrow> frames s' u = frames s u"
  by (cases a) (auto simp: defs exec_frames_other split: if_splits frame.splits)

lemma exec_fixed:
  "exec t f s = Inr s' \<Longrightarrow>
     n (bar s') = n (bar s) \<and> abort (bar s') = abort (bar s) \<and> closed s \<subseteq> closed s'"
  by (cases f) (auto simp: defs split: if_splits option.splits)

lemma step_fixed:
  "step a s = Inr s' \<Longrightarrow>
     n (bar s') = n (bar s) \<and> abort (bar s') = abort (bar s) \<and> closed s \<subseteq> closed s'"
  by (cases a) (auto simp: defs dest: exec_fixed split: if_splits frame.splits)

lemma run_fixed:
  "run sched s = Inr s' \<Longrightarrow>
     n (bar s') = n (bar s) \<and> abort (bar s') = abort (bar s) \<and> closed s \<subseteq> closed s'"
proof (induction sched arbitrary: s)
  case Nil
  then show ?case by simp
next
  case (Cons a sched)
  from Cons.prems obtain s1 where a: "step a s = Inr s1" and r: "run sched s1 = Inr s'"
    by (auto split: sum.splits)
  from step_fixed [OF a] Cons.IH [OF r] show ?case by auto
qed

lemma run_append:
  "run (xs @ ys) s = (case run xs s of Inl e \<Rightarrow> Inl e | Inr s' \<Rightarrow> run ys s')"
  by (induction xs arbitrary: s) (auto split: sum.splits)

lemma run_single: "run [a] s = step a s"
  by (cases "step a s") simp_all

lemma run_Cons_append:
  assumes "run (a # xs @ rest) s = Inr s'"
  obtains x y where "step a s = Inr x" and "run xs x = Inr y" and "run rest y = Inr s'"
  using assms by (auto simp: run_append split: sum.splits)

lemma run_frames_other:
  "run sched s = Inr s' \<Longrightarrow> \<forall>a\<in>set sched. actor a \<noteq> Some u \<Longrightarrow> frames s' u = frames s u"
proof (induction sched arbitrary: s)
  case Nil
  then show ?case by simp
next
  case (Cons a sched)
  from Cons.prems obtain s1 where a: "step a s = Inr s1" and r: "run sched s1 = Inr s'"
    by (auto split: sum.splits)
  from Cons.prems(2) have "actor a \<noteq> Some u" and "\<forall>a\<in>set sched. actor a \<noteq> Some u" by auto
  with step_frames_other [OF a] Cons.IH [OF r] show ?case by simp
qed

lemma run_aborted: "aborted s \<Longrightarrow> run sched s = Inr s' \<Longrightarrow> aborted s'"
  using run_fixed [of sched s s'] by (auto simp: aborted_def)

lemma run_not_aborted: "\<not> aborted s' \<Longrightarrow> run sched s = Inr s' \<Longrightarrow> \<not> aborted s"
  using run_aborted by blast

subsection \<open>Mutual exclusion and the channels\<close>

lemma holders_iff: "t \<in> holders s \<longleftrightarrow> holds_lock (frames s t)"
  by (simp add: holders_def)

lemma holders_goto:
  "holders (goto t f s) = (if holds_lock f then insert t (holders s) else holders s - {t})"
  by (auto simp: holders_def goto_def)

lemma holders_cong [simp]:
  "holders (s\<lparr>bar := b\<rparr>) = holders s"
  "holders (s\<lparr>closed := c\<rparr>) = holders s"
  "holders (s\<lparr>nchan := k\<rparr>) = holders s"
  "holders (s\<lparr>env := w\<rparr>) = holders s"
  by (simp_all add: holders_def)

lemma goto_sel [simp]:
  "bar (goto t f s) = bar s" "closed (goto t f s) = closed s" "nchan (goto t f s) = nchan s"
  "env (goto t f s) = env s" "frames (goto t f s) = (frames s)(t := f)"
  by (simp_all add: goto_def)

lemma mutex_inv_New: "mutex_inv (New k w)"
  by (simp add: mutex_inv_def New_def holders_def)

lemmas defs' = then_goto_def Lock_def Unlock_def close_chan_def make_chan_def Abort_def aborted_def

lemma mutex_inv_goto_out:
  "mutex_inv s \<Longrightarrow> \<not> holds_lock (frames s t) \<Longrightarrow> \<not> holds_lock f \<Longrightarrow> mutex_inv (goto t f s)"
  by (auto simp: mutex_inv_def holders_goto holders_iff split: if_splits)

lemma mutex_inv_goto_in:
  "mutex_inv s \<Longrightarrow> holds_lock (frames s t) \<Longrightarrow> holds_lock f \<Longrightarrow> mutex_inv (goto t f s)"
  using holders_iff [of t s] by (auto simp: mutex_inv_def holders_goto split: if_splits)

lemma mutex_inv_acquire:
  "mutex_inv s \<Longrightarrow> \<not> mu (bar s) \<Longrightarrow> holds_lock f \<Longrightarrow>
     mutex_inv (goto t f (s\<lparr>bar := (bar s)\<lparr>mu := True\<rparr>\<rparr>))"
  by (auto simp: mutex_inv_def holders_goto split: if_splits)

lemma mutex_inv_release:
  "mutex_inv s \<Longrightarrow> holds_lock (frames s t) \<Longrightarrow> \<not> holds_lock f \<Longrightarrow>
     mutex_inv (goto t f (s\<lparr>bar := (bar s)\<lparr>mu := False\<rparr>\<rparr>))"
  using holders_iff [of t s] by (auto simp: mutex_inv_def holders_goto split: if_splits)

lemma mutex_inv_shared [simp]:
  "mutex_inv (s\<lparr>closed := c\<rparr>) = mutex_inv s"
  "mutex_inv (s\<lparr>nchan := k\<rparr>) = mutex_inv s"
  "mutex_inv (s\<lparr>env := w\<rparr>) = mutex_inv s"
  "mu b = mu (bar s) \<Longrightarrow> mutex_inv (s\<lparr>bar := b\<rparr>) = mutex_inv s"
  by (simp_all add: mutex_inv_def)

lemma exec_mutex_inv:
  assumes "mutex_inv s" and "exec t (frames s t) s = Inr s'"
  shows "mutex_inv s'"
  using assms
  by (cases "frames s t")
     (auto simp: defs' mutex_inv_goto_out mutex_inv_goto_in mutex_inv_acquire mutex_inv_release
           split: if_splits option.splits)

lemma step_mutex_inv: "mutex_inv s \<Longrightarrow> step a s = Inr s' \<Longrightarrow> mutex_inv s'"
proof (cases a)
  case (Step t)
  then show "mutex_inv s \<Longrightarrow> step a s = Inr s' \<Longrightarrow> mutex_inv s'"
    using exec_mutex_inv [of s t s'] by simp
qed (auto simp: defs' mutex_inv_goto_out in_call_def split: if_splits frame.splits)

lemma mutex_unique:
  "mutex_inv s \<Longrightarrow> holds_lock (frames s t) \<Longrightarrow> holds_lock (frames s u) \<Longrightarrow> u = t"
  using holders_iff [of t s] holders_iff [of u s]
  by (auto simp: mutex_inv_def split: if_splits)

lemma mutex_locked: "mutex_inv s \<Longrightarrow> holds_lock (frames s t) \<Longrightarrow> mu (bar s)"
  using holders_iff [of t s] by (auto simp: mutex_inv_def split: if_splits)

lemma wf_New: "wf_state (New k w)"
  by (simp add: wf_state_def mutex_inv_New chan_ok_def local_ok_def) (simp add: New_def)

lemma exec_outside:
  assumes "exec t f s = Inr s'" and "\<not> holds_lock f" and "mu (bar s)"
  shows "bar s' = bar s \<and> nchan s' = nchan s \<and> closed s \<subseteq> closed s' \<and>
         closed s' \<subseteq> insert (abort (bar s)) (closed s)"
  using assms by (cases f) (clarsimp simp: defs' split: if_splits option.splits)+

lemma step_outside:
  assumes "step a s = Inr s'" and "\<forall>t. actor a = Some t \<longrightarrow> \<not> holds_lock (frames s t)"
    and "mu (bar s)"
  shows "bar s' = bar s \<and> nchan s' = nchan s \<and> closed s \<subseteq> closed s' \<and>
         closed s' \<subseteq> insert (abort (bar s)) (closed s)"
proof (cases a)
  case (Step t)
  with assms exec_outside [of t "frames s t" s s'] show ?thesis by simp
qed (use assms in \<open>clarsimp simp: defs' split: if_splits frame.splits\<close>)+

lemma exec_own:
  assumes "mutex_inv s" and "chan_ok s" and "local_ok (frames s t) s"
    and "exec t (frames s t) s = Inr s'"
  shows "chan_ok s' \<and> local_ok (frames s' t) s'"
proof -
  have l: "holds_lock (frames s t) \<Longrightarrow> mu (bar s)"
    using mutex_locked [OF assms(1)] by blast
  have f: "nchan s \<notin> closed s"
    using assms(2) by (auto simp: chan_ok_def)
  show ?thesis
    using assms(2-) l f
    by (cases "frames s t")
       (clarsimp simp: chan_ok_def local_ok_def defs' less_Suc_eq split: if_splits option.splits)+
qed

lemma exec_wf:
  assumes "wf_state s" and "exec t (frames s t) s = Inr s'"
  shows "wf_state s'"
proof -
  from assms(1) have m: "mutex_inv s" and c: "chan_ok s" and l: "\<And>u. local_ok (frames s u) s"
    by (simp_all add: wf_state_def)
  have m': "mutex_inv s'"
    using exec_mutex_inv [OF m assms(2)] .
  have own: "chan_ok s' \<and> local_ok (frames s' t) s'"
    using exec_own [OF m c l assms(2)] .
  have "local_ok (frames s' u) s'" for u
  proof (cases "u = t")
    case True
    with own show ?thesis by simp
  next
    case False
    then have fr: "frames s' u = frames s u"
      using exec_frames_other [OF assms(2)] by simp
    show ?thesis
    proof (cases "holds_lock (frames s u)")
      case True
      then have "\<not> holds_lock (frames s t)" and "mu (bar s)"
        using mutex_unique [OF m True, of t] mutex_locked [OF m True] False by auto
      from exec_outside [OF assms(2) this] l [of u] c show ?thesis
        by (auto simp: local_ok_def fr chan_ok_def)
    next
      case False
      then show ?thesis by (simp add: local_ok_def fr)
    qed
  qed
  with m' own show ?thesis by (simp add: wf_state_def)
qed

lemma step_wf:
  assumes "wf_state s" and "step a s = Inr s'"
  shows "wf_state s'"
proof (cases a)
  case (Step t)
  with assms exec_wf [of s t s'] show ?thesis by simp
next
  case (Call_Await t cb)
  with assms show ?thesis
    by (auto simp: wf_state_def mutex_inv_goto_out in_call_def chan_ok_def local_ok_def
             split: if_splits frame.splits)
next
  case Call_Abort
  with assms show ?thesis
    by (auto simp: wf_state_def mutex_inv_def chan_ok_def local_ok_def defs' split: if_splits)
next
  case (Recv_done t)
  with assms show ?thesis
    by (auto simp: wf_state_def mutex_inv_goto_out chan_ok_def local_ok_def
             split: if_splits frame.splits)
next
  case (Recv_abort t)
  with assms show ?thesis
    by (auto simp: wf_state_def mutex_inv_goto_out chan_ok_def local_ok_def
             split: if_splits frame.splits)
qed

lemma run_wf: "wf_state s \<Longrightarrow> run sched s = Inr s' \<Longrightarrow> wf_state s'"
proof (induction sched arbitrary: s)
  case Nil
  then show ?case by simp
next
  case (Cons a sched)
  from Cons.prems(2) obtain s1 where a: "step a s = Inr s1" and r: "run sched s1 = Inr s'"
    by (auto split: sum.splits)
  from Cons.IH [OF step_wf [OF Cons.prems(1) a] r] show ?case .
qed

lemma reachable_wf: "run sched (New k w) = Inr s \<Longrightarrow> wf_state s"
  using run_wf [OF wf_New] .

lemma step_foreign_locked:
  assumes "wf_state s" and "holds_lock (frames s t)" and "step a s = Inr s'"
    and "actor a \<noteq> Some t"
  shows "bar s' = bar s \<and> nchan s' = nchan s \<and> closed s \<subseteq> closed s' \<and>
         closed s' \<subseteq> insert (abort (bar s)) (closed s) \<and> frames s' t = frames s t"
proof -
  from assms(1) have m: "mutex_inv s" by (simp add: wf_state_def)
  have "\<forall>u. actor a = Some u \<longrightarrow> \<not> holds_lock (frames s u)"
    using mutex_unique [OF m assms(2)] assms(4) by auto
  from step_outside [OF assms(3) this mutex_locked [OF m assms(2)]]
    step_frames_other [OF assms(3,4)]
  show ?thesis by simp
qed

lemma run_foreign_locked:
  assumes "wf_state s" and "holds_lock (frames s t)" and "run sched s = Inr s'"
    and "\<forall>a\<in>set sched. actor a \<noteq> Some t"
  shows "bar s' = bar s \<and> nchan s' = nchan s \<and> closed s \<subseteq> closed s' \<and>
         closed s' \<subseteq> insert (abort (bar s)) (closed s) \<and> frames s' t = frames s t"
  using assms
proof (induction sched arbitrary: s)
  case Nil
  then show ?case by auto
next
  case (Cons a sched)
  from Cons.prems(3) obtain s1 where a: "step a s = Inr s1" and r: "run sched s1 = Inr s'"
    by (auto split: sum.splits)
  from Cons.prems(4) have fa: "actor a \<noteq> Some t" and fs: "\<forall>a\<in>set sched. actor a \<noteq> Some t"
    by auto
  note one = step_foreign_locked [OF Cons.prems(1,2) a fa]
  then have h: "holds_lock (frames s1 t)" using Cons.prems(2) by simp
  from Cons.IH [OF step_wf [OF Cons.prems(1) a] h r fs] one
  show ?case by auto
qed

text \<open>
  The critical section of \<^verbatim>\<open>Await\<close> (lines 58 to 61) acts as one statement: whatever the
  others do between its statements, the call leaves it with the decremented counter in
  \<^verbatim>\<open>count\<close> and the round channel of that moment in \<^verbatim>\<open>done\<close>. These are the locals
  the frame \<open>Await_branch cb c d\<close> holds.
\<close>

lemma decrement_atomic:
  assumes reach: "run sched0 (New k w) = Inr s"
    and at: "frames s t = Await_dec cb"
    and exec: "run (Step t # o1 @ Step t # o2 @ Step t # o3 @ [Step t]) s = Inr s'"
    and others: "\<forall>a \<in> set (o1 @ o2 @ o3). actor a \<noteq> Some t"
  shows "frames s' t = Await_branch cb (count (bar s) - 1) (done_ch (bar s)) \<and>
         count (bar s') = count (bar s) - 1 \<and> done_ch (bar s') = done_ch (bar s) \<and>
         \<not> mu (bar s')"
proof -
  have wf: "wf_state s" using reachable_wf [OF reach] .
  from exec obtain s1 x1 where d: "step (Step t) s = Inr s1" and r1: "run o1 s1 = Inr x1"
    and e1: "run (Step t # o2 @ Step t # o3 @ [Step t]) x1 = Inr s'"
    by (rule run_Cons_append)
  from e1 obtain s2 x2 where c: "step (Step t) x1 = Inr s2" and r2: "run o2 s2 = Inr x2"
    and e2: "run (Step t # o3 @ [Step t]) x2 = Inr s'"
    by (rule run_Cons_append)
  from e2 obtain s3 x3 where dn: "step (Step t) x2 = Inr s3" and r3: "run o3 s3 = Inr x3"
    and e3: "run [Step t] x3 = Inr s'"
    by (rule run_Cons_append)
  from e3 have ul: "step (Step t) x3 = Inr s'" by (simp only: run_single)
  from others have f1: "\<forall>a\<in>set o1. actor a \<noteq> Some t" and f2: "\<forall>a\<in>set o2. actor a \<noteq> Some t"
    and f3: "\<forall>a\<in>set o3. actor a \<noteq> Some t"
    by auto
  \<comment> \<open>line 58\<close>
  from d at have s1: "s1 = goto t (Await_count cb) (s\<lparr>bar := (bar s)\<lparr>count := count (bar s) - 1\<rparr>\<rparr>)"
    by simp
  have wf1: "wf_state s1" using step_wf [OF wf d] .
  have h1: "holds_lock (frames s1 t)" by (simp add: s1)
  note st1 = run_foreign_locked [OF wf1 h1 r1 f1]
  have wfx1: "wf_state x1" using run_wf [OF wf1 r1] .
  \<comment> \<open>line 59\<close>
  from st1 have atx1: "frames x1 t = Await_count cb" by (simp add: s1)
  from c atx1 have s2: "s2 = goto t (Await_done cb (count (bar x1))) x1" by simp
  have wf2: "wf_state s2" using step_wf [OF wfx1 c] .
  have h2: "holds_lock (frames s2 t)" by (simp add: s2)
  note st2 = run_foreign_locked [OF wf2 h2 r2 f2]
  have wfx2: "wf_state x2" using run_wf [OF wf2 r2] .
  \<comment> \<open>line 60\<close>
  from st2 have atx2: "frames x2 t = Await_done cb (count (bar x1))" by (simp add: s2)
  from dn atx2 have s3: "s3 = goto t (Await_Unlock cb (count (bar x1)) (done_ch (bar x2))) x2"
    by simp
  have wf3: "wf_state s3" using step_wf [OF wfx2 dn] .
  have h3: "holds_lock (frames s3 t)" by (simp add: s3)
  note st3 = run_foreign_locked [OF wf3 h3 r3 f3]
  \<comment> \<open>line 61\<close>
  from st3 have atx3: "frames x3 t = Await_Unlock cb (count (bar x1)) (done_ch (bar x2))"
    by (simp add: s3)
  from ul atx3 have s': "s' = goto t (Await_branch cb (count (bar x1)) (done_ch (bar x2)))
      (x3\<lparr>bar := (bar x3)\<lparr>mu := False\<rparr>\<rparr>)"
    by (auto simp: defs' split: if_splits)
  have b1: "bar x1 = (bar s)\<lparr>count := count (bar s) - 1\<rparr>" using st1 by (simp add: s1)
  have b2: "bar x2 = bar x1" using st2 by (simp add: s2)
  have b3: "bar x3 = bar x2" using st3 by (simp add: s3)
  from b1 b2 b3 show ?thesis by (simp add: s')
qed

subsection \<open>Signed arithmetic on the counter\<close>

lemma sless_asym: "0 <s (c :: 64 word) \<Longrightarrow> \<not> c <s 0"
  by (simp add: word_sless_alt)

lemma sint_dec:
  assumes "- (2 ^ 63) < sint (c :: 64 word)"
  shows "sint (c - 1) = sint c - 1"
proof -
  have "sint c < 2 ^ 63" using sint_lt [of c] by simp
  with assms show ?thesis
    by (simp add: sint_word_ariths signed_take_bit_int_eq_self)
qed

lemma sint_min64: "sint (- (2 ^ 63) :: 64 word) = - (2 ^ 63)"
  by simp

lemma dec_in_range:
  assumes "0 \<le>s (c :: 64 word)" and "c \<le>s m"
  shows "c - 1 <s 0 \<or> (0 \<le>s c - 1 \<and> c - 1 \<le>s m)"
proof -
  from assms(1) have "- (2 ^ 63) < sint c" by (simp add: word_sle_eq)
  from sint_dec [OF this] assms show ?thesis
    by (auto simp: word_sle_eq word_sless_alt)
qed

section \<open>The claims\<close>

subsection \<open>C1: the last arriver\<close>

lemma after_cb_step:
  assumes "i < 6" and "frames y t = after_cb e ! i" and "step (Step t) y = Inr y'"
  shows "frames y' t = after_cb e ! Suc i"
proof -
  from assms(1) have "i = 0 \<or> i = 1 \<or> i = 2 \<or> i = 3 \<or> i = 4 \<or> i = 5" by arith
  with assms(2,3) show ?thesis
    by (auto simp: after_cb_def defs' split: if_splits)
qed

lemma after_cb_own:
  assumes "i \<le> 6" and "frames y t = after_cb e ! i" and "step a y = Inr y'"
    and "actor a = Some t" and "\<forall>cb'. a \<noteq> Call_Await t cb'"
  shows "i < 6 \<and> a = Step t"
proof -
  from assms(1) have i: "i = 0 \<or> i = 1 \<or> i = 2 \<or> i = 3 \<or> i = 4 \<or> i = 5 \<or> i = 6" by arith
  show ?thesis
  proof (cases a)
    case (Step u)
    with assms(2-4) i show ?thesis by (auto simp: after_cb_def)
  next
    case (Recv_done u)
    with assms(2-4) i show ?thesis by (auto simp: after_cb_def)
  next
    case (Recv_abort u)
    with assms(2-4) i show ?thesis by (auto simp: after_cb_def)
  qed (use assms(4,5) in auto)
qed

lemma after_cb_run:
  assumes "run rest y = Inr s'" and "frames y t = after_cb e ! i" and "i \<le> 6"
    and "\<forall>a \<in> set rest. \<forall>cb'. a \<noteq> Call_Await t cb'"
  shows "i + length (filter (\<lambda>a. actor a = Some t) rest) \<le> 6 \<and>
         frames s' t = after_cb e ! (i + length (filter (\<lambda>a. actor a = Some t) rest))"
  using assms
proof (induction rest arbitrary: y i)
  case Nil
  then show ?case by simp
next
  case (Cons a rest)
  from Cons.prems(1) obtain y1 where a: "step a y = Inr y1" and r: "run rest y1 = Inr s'"
    by (auto split: sum.splits)
  from Cons.prems(4) have na: "\<forall>cb'. a \<noteq> Call_Await t cb'"
    and nr: "\<forall>a \<in> set rest. \<forall>cb'. a \<noteq> Call_Await t cb'" by auto
  show ?case
  proof (cases "actor a = Some t")
    case True
    from after_cb_own [OF Cons.prems(3,2) a True na] have i: "i < 6" and st: "a = Step t"
      by auto
    from after_cb_step [OF i Cons.prems(2)] a st have "frames y1 t = after_cb e ! Suc i"
      by simp
    from Cons.IH [OF r this _ nr] i True show ?thesis by simp
  next
    case False
    with step_frames_other [OF a] Cons.prems(2) have "frames y1 t = after_cb e ! i" by simp
    from Cons.IH [OF r this Cons.prems(3) nr] False show ?thesis by simp
  qed
qed

lemma callback_path_alone:
  assumes "wf_state s" and "frames s t = Await_branch cb 0 d" and "\<not> mu (bar s)"
  shows "\<exists>s'. run [Step t, Step t, Step t, Step t, Step t, Step t, Step t, Step t] s = Inr s' \<and>
              frames s' t = Returned (cb_result cb (env s)) \<and> env s' = cb_effect cb (env s)"
proof -
  from assms(1,3) have "done_ch (bar s) \<notin> closed s"
    by (simp add: wf_state_def chan_ok_def)
  with assms(2,3) show ?thesis
    by (cases cb) (simp_all add: defs' cb_result_def cb_effect_def)
qed

text \<open>
  Claim C1. Let the decrement of a call have given exactly zero: the goroutine \<open>t\<close> stands
  at the tests on \<^verbatim>\<open>count\<close> with \<open>count = 0\<close>. Whatever the other goroutines do meanwhile
  (\<open>o1\<close>, and the steps of \<open>rest\<close> that are not its own; \<^verbatim>\<open>Abort\<close> included), it comes to
  the callback statement; that one statement runs the callback once, on the data as they
  are then, changes nothing of the barrier and keeps the result as \<^verbatim>\<open>err\<close> (nil for a nil
  callback); each later statement of \<open>t\<close> is the next entry of \<open>after_cb\<close>, that is the
  five statements of \<^verbatim>\<open>reset\<close> and then \<^verbatim>\<open>return err\<close>. So after six of them the call has
  returned, and it has returned the callback's own result; the abort channel is never
  consulted. And the call does return: left alone with the mutex free, it has returned
  the callback's result after eight statements.
\<close>

theorem last_arriver:
  assumes "run pre (New k w) = Inr s"
    and "frames s t = Await_branch cb 0 d"
    and "run (Step t # o1) s = Inr x"
    and "run (Step t # rest) x = Inr s'"
    and "\<forall>a \<in> set o1. actor a \<noteq> Some t"
    and "\<forall>a \<in> set rest. \<forall>cb'. a \<noteq> Call_Await t cb'"
  shows "frames x t = Await_cb cb \<and>
         (\<exists>y. step (Step t) x = Inr y \<and> run rest y = Inr s' \<and>
              env y = cb_effect cb (env x) \<and> bar y = bar x \<and> closed y = closed x \<and>
              frames y t = reset_Lock (cb_result cb (env x))) \<and>
         length (filter (\<lambda>a. actor a = Some t) rest) \<le> 6 \<and>
         frames s' t =
           after_cb (cb_result cb (env x)) ! length (filter (\<lambda>a. actor a = Some t) rest) \<and>
         (\<not> mu (bar s) \<longrightarrow>
            (\<exists>s''. run [Step t, Step t, Step t, Step t, Step t, Step t, Step t, Step t] s
                     = Inr s'' \<and>
                   frames s'' t = Returned (cb_result cb (env s)) \<and>
                   env s'' = cb_effect cb (env s)))"
proof -
  note alone = callback_path_alone [OF reachable_wf [OF assms(1)] assms(2)]
  from assms(3) obtain x0 where b: "step (Step t) s = Inr x0" and o: "run o1 x0 = Inr x"
    by (auto split: sum.splits)
  from b assms(2) have "frames x0 t = Await_cb cb" by auto
  with run_frames_other [OF o assms(5)] have fx: "frames x t = Await_cb cb" by simp
  from assms(4) obtain y where c: "step (Step t) x = Inr y" and r: "run rest y = Inr s'"
    by (auto split: sum.splits)
  from c fx have y: "env y = cb_effect cb (env x)" "bar y = bar x" "closed y = closed x"
    "frames y t = reset_Lock (cb_result cb (env x))"
    by (auto simp: cb_effect_def cb_result_def split: option.splits)
  from y(4) have "frames y t = after_cb (cb_result cb (env x)) ! 0"
    by (simp add: after_cb_def)
  from after_cb_run [OF r this _ assms(6)] fx c r y alone show ?thesis by simp
qed

theorem last_arriver_witness:
  "\<exists>s x s'. run (butlast (arrive 0 failing_cb)) (New 1 0) = Inr s \<and>
     frames s 0 = Await_branch failing_cb 0 0 \<and>
     run [Step 0, Call_Abort] s = Inr x \<and> aborted x \<and>
     run (Step 0 # [Step 0, Call_Await 1 None, Step 0, Step 0, Step 1, Step 0, Step 0, Step 0]) x
       = Inr s' \<and>
     frames s' 0 = Returned (Some (ErrCallback ''disk full'')) \<and> env s' = 1 \<and>
     (\<exists>s''. run [Step 0, Step 0, Step 0, Step 0, Step 0, Step 0, Step 0, Step 0] s = Inr s'' \<and>
            frames s'' 0 = Returned (Some (ErrCallback ''disk full'')))"
proof -
  have "\<exists>s x s'. run (butlast (arrive 0 failing_cb)) (New 1 0) = Inr s \<and>
     frames s 0 = Await_branch failing_cb 0 0 \<and> \<not> mu (bar s) \<and> env s = 0 \<and>
     run [Step 0, Call_Abort] s = Inr x \<and> aborted x \<and> env x = 0 \<and>
     run (Step 0 # [Step 0, Call_Await 1 None, Step 0, Step 0, Step 1, Step 0, Step 0, Step 0]) x
       = Inr s' \<and> env s' = 1"
    by (simp add: eval failing_cb_def word_sless_alt)
  then obtain s x s' where pre: "run (butlast (arrive 0 failing_cb)) (New 1 0) = Inr s"
    and f: "frames s 0 = Await_branch failing_cb 0 0"
    and m: "\<not> mu (bar s)" and e0: "env s = 0"
    and r1: "run (Step 0 # [Call_Abort]) s = Inr x" and ab: "aborted x" and e: "env x = 0"
    and r2: "run (Step 0 # [Step 0, Call_Await 1 None, Step 0, Step 0, Step 1, Step 0, Step 0,
               Step 0]) x = Inr s'"
    and e': "env s' = 1"
    by blast
  have o1: "\<forall>a \<in> set [Call_Abort :: nat action]. actor a \<noteq> Some 0" by simp
  have o2: "\<forall>a \<in> set [Step 0, Call_Await 1 None, Step 0, Step 0, Step 1, Step 0, Step 0,
      Step 0 :: nat action]. \<forall>cb'. a \<noteq> Call_Await 0 cb'" by simp
  note th = last_arriver [OF pre f r1 r2 o1 o2]
  have cr: "cb_result failing_cb 0 = Some (ErrCallback ''disk full'')"
    by (simp add: cb_result_def failing_cb_def)
  from th have "frames s' 0 = after_cb (cb_result failing_cb (env x)) !
      length (filter (\<lambda>a. actor a = Some 0)
        [Step 0, Call_Await 1 None, Step 0, Step 0, Step 1, Step 0, Step 0, Step 0 :: nat action])"
    by blast
  then have A: "frames s' 0 = Returned (Some (ErrCallback ''disk full''))"
    by (simp add: after_cb_def e cr)
  from th m have "\<exists>s''. run [Step 0, Step 0, Step 0, Step 0, Step 0, Step 0, Step 0, Step 0] s
      = Inr s'' \<and> frames s'' 0 = Returned (cb_result failing_cb (env s))"
    by blast
  then have B: "\<exists>s''. run [Step 0, Step 0, Step 0, Step 0, Step 0, Step 0, Step 0, Step 0] s
      = Inr s'' \<and> frames s'' 0 = Returned (Some (ErrCallback ''disk full''))"
    by (simp only: e0 cr)
  from A B pre f r1 ab r2 e' show ?thesis by blast
qed

subsection \<open>C2: one arrival too many\<close>

text \<open>
  Claim C2 says that every call whose decrement is negative aborts the barrier and
  returns \<^verbatim>\<open>ErrBarrierMisused\<close>. The code does so for the first such call only. Party size
  1, three concurrent calls: goroutine 0 decrements to 0, goroutines 1 and 2 to -1 and -2.
  Goroutine 1 closes \<^verbatim>\<open>b.abort\<close> and returns \<^verbatim>\<open>ErrBarrierMisused\<close>; goroutine 2 stands at
  \<^verbatim>\<open>b.Abort()\<close> and its \<^verbatim>\<open>close(b.abort)\<close> panics.
\<close>

theorem third_arrival_panics:
  "map_sum id (frame_of 1)
     (run (arrive 0 None @ arrive 1 None @ arrive 2 None @ [Step 1, Step 1]) (New 1 ())) =
     Inr (Returned (Some ErrBarrierMisused)) \<and>
   map_sum id (frame_of 2)
     (run (arrive 0 None @ arrive 1 None @ arrive 2 None @ [Step 1, Step 1]) (New 1 ())) =
     Inr Await_Abort \<and>
   run (arrive 0 None @ arrive 1 None @ arrive 2 None @ [Step 1, Step 1, Step 2]) (New 1 ()) =
     Inl Panic"
  by (simp add: eval word_sless_alt)

subsection \<open>C3: calls on an aborted barrier\<close>

text \<open>
  Claim C3. Once the abort channel is closed (state \<open>s\<close>), after any further execution
  \<open>sched\<close>, a goroutine that enters \<^verbatim>\<open>Await\<close> (and lets any other goroutines run before its
  first statement) executes line 53 without blocking, and that statement returns
  \<^verbatim>\<open>ErrBarrierAborted\<close> and changes nothing but the goroutine's own frame: the counter, the
  round channel, the mutex and the data are as before.
\<close>

theorem Await_when_aborted:
  assumes "aborted s" and "run sched s = Inr s1" and "\<not> in_call (frames s1 t)"
    and "run (Call_Await t cb # others) s1 = Inr s2"
    and "\<forall>a \<in> set others. actor a \<noteq> Some t"
  shows "step (Step t) s2 = Inr (goto t (Returned (Some ErrBarrierAborted)) s2)"
proof -
  from assms(4) obtain x where c: "step (Call_Await t cb) s1 = Inr x" and o: "run others x = Inr s2"
    by (auto split: sum.splits)
  from c assms(3) have "frames x t = Await_aborted cb" by auto
  with run_frames_other [OF o assms(5)] have f: "frames s2 t = Await_aborted cb" by simp
  have "aborted s2"
    using run_aborted [OF run_aborted [OF assms(1,2)] assms(4)] .
  with f show ?thesis by simp
qed

theorem Await_when_aborted_witness:
  "\<exists>s s1 s2. run [Call_Abort] (New 2 ()) = Inr s \<and> aborted s \<and>
     run [Call_Await 1 None, Step 1] s = Inr s1 \<and> \<not> in_call (frames s1 0) \<and>
     run (Call_Await 0 None # [Call_Await 1 None]) s1 = Inr s2 \<and>
     step (Step 0) s2 = Inr (goto 0 (Returned (Some ErrBarrierAborted)) s2)"
proof -
  have "\<exists>s s1 s2. run [Call_Abort] (New 2 ()) = Inr s \<and> aborted s \<and>
     run [Call_Await 1 None, Step 1] s = Inr s1 \<and> \<not> in_call (frames s1 0) \<and>
     run (Call_Await 0 None # [Call_Await 1 None]) s1 = Inr s2"
    by (simp add: eval)
  then obtain s s1 s2 where a: "run [Call_Abort] (New 2 ()) = Inr s" "aborted s"
    "run [Call_Await 1 None, Step 1] s = Inr s1" "\<not> in_call (frames s1 0)"
    "run (Call_Await 0 None # [Call_Await 1 None]) s1 = Inr s2"
    by blast
  from Await_when_aborted [OF a(2-5)]
  have "step (Step 0) s2 = Inr (goto 0 (Returned (Some ErrBarrierAborted)) s2)" by simp
  with a show ?thesis by blast
qed

subsection \<open>C4: Abort twice\<close>

text \<open>
  Claim C4 says that \<^verbatim>\<open>Abort\<close> is idempotent. \<^verbatim>\<open>Abort\<close> is \<^verbatim>\<open>close(b.abort)\<close> with no
  guard, and closing a closed channel panics: on every new barrier the second of two
  calls of \<^verbatim>\<open>Abort\<close> panics.
\<close>

theorem Abort_twice_panics: "run [Call_Abort, Call_Abort] (New k w) = Inl Panic"
  by (simp add: eval word_sless_alt)

subsection \<open>C5: the waiters\<close>

text \<open>
  Claim C5. Let the decrement of a call have given a positive value: the goroutine \<open>t\<close>
  stands at the tests with \<open>0 < count\<close> and the round channel \<open>d\<close> it read under the lock.
  Whatever the others do (\<open>o0\<close>, \<open>o1\<close>, \<open>o2\<close>, \<open>o3\<close>): (1) it enters the \<^verbatim>\<open>select\<close> on
  \<open>d\<close>, where it has no statement of its own to execute and each case is blocked as
  long as its channel is open and ready once it is closed; (2) when it is woken by \<open>d\<close> and then executes line 97, \<open>d\<close> is
  closed and it returns \<^verbatim>\<open>ErrBarrierAborted\<close> if the abort channel is closed at that
  statement and nil otherwise; (3) when it is woken by the abort channel it returns
  \<^verbatim>\<open>ErrBarrierAborted\<close> at once, whether \<open>d\<close> is closed or not.
\<close>

theorem wait_verdict:
  assumes "frames s t = Await_branch cb c d" and "0 <s c"
    and "\<forall>a \<in> set (o0 @ o1 @ o2 @ o3). actor a \<noteq> Some t"
  shows "(run (Step t # o0) s = Inr x \<longrightarrow>
           frames x t = wait_select d \<and> step (Step t) x = Inl No_step \<and>
           step (Recv_done t) x =
             (if d \<in> closed x then Inr (goto t wait_aborted x) else Inl Blocked) \<and>
           step (Recv_abort t) x =
             (if aborted x then Inr (goto t (Returned (Some ErrBarrierAborted)) x)
              else Inl Blocked)) \<and>
         (run (Step t # o1 @ Recv_done t # o2 @ [Step t]) s = Inr s1 \<longrightarrow>
           d \<in> closed s1 \<and>
           frames s1 t = Returned (if aborted s1 then Some ErrBarrierAborted else None)) \<and>
         (run (Step t # o3 @ [Recv_abort t]) s = Inr s2 \<longrightarrow>
           aborted s2 \<and> frames s2 t = Returned (Some ErrBarrierAborted))"
proof -
  from assms(3) have f0: "\<forall>a\<in>set o0. actor a \<noteq> Some t" and f1: "\<forall>a\<in>set o1. actor a \<noteq> Some t"
    and f2: "\<forall>a\<in>set o2. actor a \<noteq> Some t" and f3: "\<forall>a\<in>set o3. actor a \<noteq> Some t"
    by auto
  have enter: "frames x t = wait_select d"
    if "run (Step t # os) s = Inr x" and "\<forall>a\<in>set os. actor a \<noteq> Some t" for x os
  proof -
    from that(1) obtain y where b: "step (Step t) s = Inr y" and o: "run os y = Inr x"
      by (auto split: sum.splits)
    from b assms(1,2) have "frames y t = wait_select d"
      by (auto simp: sless_asym)
    with run_frames_other [OF o that(2)] show ?thesis by simp
  qed
  have blocked: "frames x t = wait_select d \<and> step (Step t) x = Inl No_step \<and>
           step (Recv_done t) x =
             (if d \<in> closed x then Inr (goto t wait_aborted x) else Inl Blocked) \<and>
           step (Recv_abort t) x =
             (if aborted x then Inr (goto t (Returned (Some ErrBarrierAborted)) x)
              else Inl Blocked)"
    if "run (Step t # o0) s = Inr x"
    using enter [OF that f0] by simp
  have by_done: "d \<in> closed s1 \<and>
        frames s1 t = Returned (if aborted s1 then Some ErrBarrierAborted else None)"
    if r: "run (Step t # o1 @ Recv_done t # o2 @ [Step t]) s = Inr s1"
  proof -
    from r obtain y x where b: "step (Step t) s = Inr y" and o: "run o1 y = Inr x"
      and r2: "run (Recv_done t # o2 @ [Step t]) x = Inr s1"
      by (rule run_Cons_append)
    from b o have "run (Step t # o1) s = Inr x" by simp
    then have fx: "frames x t = wait_select d" using f1 by (rule enter)
    from r2 obtain y2 x2 where w: "step (Recv_done t) x = Inr y2" and o2: "run o2 y2 = Inr x2"
      and c: "run [Step t] x2 = Inr s1"
      by (rule run_Cons_append)
    from w fx have y2: "d \<in> closed x" "y2 = goto t wait_aborted x"
      by (auto split: if_splits)
    from run_frames_other [OF o2 f2] y2 have fx2: "frames x2 t = wait_aborted" by simp
    from c have c': "step (Step t) x2 = Inr s1" by (simp only: run_single)
    from run_fixed [OF o2] y2 have "d \<in> closed x2" by auto
    with c' fx2 show ?thesis by (auto simp: aborted_def split: if_splits)
  qed
  have by_abort: "aborted s2 \<and> frames s2 t = Returned (Some ErrBarrierAborted)"
    if r: "run (Step t # o3 @ [Recv_abort t]) s = Inr s2"
  proof -
    from r obtain y x where b: "step (Step t) s = Inr y" and o: "run o3 y = Inr x"
      and w: "run [Recv_abort t] x = Inr s2"
      by (rule run_Cons_append)
    from b o have "run (Step t # o3) s = Inr x" by simp
    then have fx: "frames x t = wait_select d" using f3 by (rule enter)
    from w have "step (Recv_abort t) x = Inr s2" by (simp only: run_single)
    with fx show ?thesis by (auto simp: aborted_def split: if_splits)
  qed
  from blocked by_done by_abort show ?thesis by blast
qed

theorem wait_verdict_witness:
  "\<exists>s x s1 s2. run (butlast (arrive 0 None)) (New 2 ()) = Inr s \<and>
     frames s 0 = Await_branch None 1 0 \<and>
     run (Step 0 # [Call_Await 1 None]) s = Inr x \<and> frames x 0 = wait_select 0 \<and>
     step (Recv_done 0) x = Inl Blocked \<and> step (Recv_abort 0) x = Inl Blocked \<and>
     run (Step 0 # (arrive 1 None @ complete 1) @ Recv_done 0 # [] @ [Step 0]) s = Inr s1 \<and>
     frames s1 0 = Returned None \<and>
     run (Step 0 # [Call_Abort] @ [Recv_abort 0]) s = Inr s2 \<and>
     frames s2 0 = Returned (Some ErrBarrierAborted)"
proof -
  have "\<exists>s x s1 s2. run (butlast (arrive 0 None)) (New 2 ()) = Inr s \<and>
     frames s 0 = Await_branch None 1 0 \<and>
     run (Step 0 # [Call_Await 1 None]) s = Inr x \<and> 0 \<notin> closed x \<and> \<not> aborted x \<and>
     run (Step 0 # (arrive 1 None @ complete 1) @ Recv_done 0 # [] @ [Step 0]) s = Inr s1 \<and>
     \<not> aborted s1 \<and>
     run (Step 0 # [Call_Abort] @ [Recv_abort 0]) s = Inr s2"
    by (simp add: eval word_sless_alt)
  then obtain s x s1 s2 where a: "run (butlast (arrive 0 None)) (New 2 ()) = Inr s"
    "frames s 0 = Await_branch None 1 0"
    "run (Step 0 # [Call_Await 1 None]) s = Inr x" "0 \<notin> closed x" "\<not> aborted x"
    "run (Step 0 # (arrive 1 None @ complete 1) @ Recv_done 0 # [] @ [Step 0]) s = Inr s1"
    "\<not> aborted s1"
    "run (Step 0 # [Call_Abort] @ [Recv_abort 0]) s = Inr s2"
    by blast
  have pos: "0 <s (1 :: 64 word)" by (simp add: word_sless_alt)
  have others: "\<forall>a \<in> set ([Call_Await 1 None] @ (arrive 1 None @ complete 1) @ [] @
      [Call_Abort :: unit action]). actor a \<noteq> Some 0"
    by (simp add: arrive_def complete_def)
  from wait_verdict [OF a(2) pos others, of x s1 s2] a
  have "frames x 0 = wait_select 0 \<and>
     step (Recv_done 0) x = Inl Blocked \<and> step (Recv_abort 0) x = Inl Blocked \<and>
     frames s1 0 = Returned None \<and> frames s2 0 = Returned (Some ErrBarrierAborted)"
    by simp
  with a show ?thesis by blast
qed

subsection \<open>C6: reset\<close>

lemma reset_alone:
  assumes "wf_state s" and "frames s t = reset_Lock e" and "\<not> mu (bar s)"
  shows "\<exists>s'. run [Step t, Step t, Step t, Step t, Step t] s = Inr s' \<and>
              frames s' t = Await_return e"
proof -
  from assms(1,3) have "done_ch (bar s) \<notin> closed s"
    by (simp add: wf_state_def chan_ok_def)
  with assms(2,3) show ?thesis by (simp add: defs')
qed

text \<open>
  Claim C6. In a state \<open>s\<close> reachable from \<^verbatim>\<open>New(k)\<close> let goroutine \<open>t\<close> stand at the
  \<^verbatim>\<open>b.Lock()\<close> of \<^verbatim>\<open>reset\<close> and take the lock. Let the others run as they like between
  its five statements (\<open>o1\<close> to \<open>o4\<close>). When \<open>t\<close> has released the lock, the round channel
  of \<open>s\<close>, open until then, is closed; \<^verbatim>\<open>b.done\<close> is the channel \<^verbatim>\<open>make\<close> had not
  handed out in \<open>s\<close>, and it is open; the counter is the party size \<open>k\<close>; the mutex is
  free. Nothing the others did while \<open>t\<close> held the lock shows in the counter or the
  round channel: the five statements act as one. Left alone, \<open>t\<close> executes the five
  statements without blocking.
\<close>

theorem reset_atomic:
  assumes reach: "run sched0 (New k w) = Inr s"
    and at: "frames s t = reset_Lock e"
    and exec: "run (Step t # o1 @ Step t # o2 @ Step t # o3 @ Step t # o4 @ [Step t]) s = Inr s'"
    and others: "\<forall>a \<in> set (o1 @ o2 @ o3 @ o4). actor a \<noteq> Some t"
  shows "done_ch (bar s) \<notin> closed s \<and> done_ch (bar s) \<in> closed s' \<and>
         done_ch (bar s') = nchan s \<and> done_ch (bar s') \<notin> closed s' \<and>
         count (bar s') = n (bar s') \<and> n (bar s') = k \<and>
         \<not> mu (bar s') \<and> frames s' t = Await_return e \<and>
         (\<exists>s''. run [Step t, Step t, Step t, Step t, Step t] s = Inr s'' \<and>
                frames s'' t = Await_return e)"
proof -
  have wf: "wf_state s" using reachable_wf [OF reach] .
  have k: "n (bar s) = k" using run_fixed [OF reach] by (simp add: New_def)
  from wf have c: "chan_ok s" by (simp add: wf_state_def)
  from exec obtain s1 x1 where l: "step (Step t) s = Inr s1" and r1: "run o1 s1 = Inr x1"
    and e1: "run (Step t # o2 @ Step t # o3 @ Step t # o4 @ [Step t]) x1 = Inr s'"
    by (rule run_Cons_append)
  from e1 obtain s2 x2 where cl: "step (Step t) x1 = Inr s2" and r2: "run o2 s2 = Inr x2"
    and e2: "run (Step t # o3 @ Step t # o4 @ [Step t]) x2 = Inr s'"
    by (rule run_Cons_append)
  from e2 obtain s3 x3 where mk: "step (Step t) x2 = Inr s3" and r3: "run o3 s3 = Inr x3"
    and e3: "run (Step t # o4 @ [Step t]) x3 = Inr s'"
    by (rule run_Cons_append)
  from e3 obtain s4 x4 where ct: "step (Step t) x3 = Inr s4" and r4: "run o4 s4 = Inr x4"
    and e4: "run [Step t] x4 = Inr s'"
    by (rule run_Cons_append)
  from e4 have ul: "step (Step t) x4 = Inr s'" by (simp split: sum.splits)
  from others have f1: "\<forall>a\<in>set o1. actor a \<noteq> Some t" and f2: "\<forall>a\<in>set o2. actor a \<noteq> Some t"
    and f3: "\<forall>a\<in>set o3. actor a \<noteq> Some t" and f4: "\<forall>a\<in>set o4. actor a \<noteq> Some t"
    by auto
  \<comment> \<open>line 110: the lock is taken\<close>
  from l at have s1: "\<not> mu (bar s)" "s1 = goto t (reset_close e) (s\<lparr>bar := (bar s)\<lparr>mu := True\<rparr>\<rparr>)"
    by (auto simp: defs' split: if_splits)
  have wf1: "wf_state s1" using step_wf [OF wf l] .
  from s1 c have open0: "done_ch (bar s) \<notin> closed s" by (simp add: chan_ok_def)
  have h1: "holds_lock (frames s1 t)" by (simp add: s1)
  note st1 = run_foreign_locked [OF wf1 h1 r1 f1]
  have wfx1: "wf_state x1" using run_wf [OF wf1 r1] .
  \<comment> \<open>line 111: the current round signal is closed\<close>
  from st1 have atx1: "frames x1 t = reset_close e" by (simp add: s1)
  from cl atx1 have s2: "s2 = goto t (reset_make e) (x1\<lparr>closed := insert (done_ch (bar x1)) (closed x1)\<rparr>)"
    by (auto simp: defs' split: if_splits)
  have wf2: "wf_state s2" using step_wf [OF wfx1 cl] .
  have h2: "holds_lock (frames s2 t)" by (simp add: s2)
  note st2 = run_foreign_locked [OF wf2 h2 r2 f2]
  have wfx2: "wf_state x2" using run_wf [OF wf2 r2] .
  \<comment> \<open>line 112: a fresh channel replaces it\<close>
  from st2 have atx2: "frames x2 t = reset_make e" by (simp add: s2)
  from mk atx2 have s3: "s3 = goto t (reset_count e)
      (x2\<lparr>nchan := Suc (nchan x2), bar := (bar x2)\<lparr>done_ch := nchan x2\<rparr>\<rparr>)"
    by (auto simp: defs' split: if_splits)
  have wf3: "wf_state s3" using step_wf [OF wfx2 mk] .
  have h3: "holds_lock (frames s3 t)" by (simp add: s3)
  note st3 = run_foreign_locked [OF wf3 h3 r3 f3]
  have wfx3: "wf_state x3" using run_wf [OF wf3 r3] .
  \<comment> \<open>line 113: the counter is restored\<close>
  from st3 have atx3: "frames x3 t = reset_count e" by (simp add: s3)
  from ct atx3 have s4: "s4 = goto t (reset_Unlock e) (x3\<lparr>bar := (bar x3)\<lparr>count := n (bar x3)\<rparr>\<rparr>)"
    by (auto simp: defs' split: if_splits)
  have wf4: "wf_state s4" using step_wf [OF wfx3 ct] .
  have h4: "holds_lock (frames s4 t)" by (simp add: s4)
  note st4 = run_foreign_locked [OF wf4 h4 r4 f4]
  \<comment> \<open>line 114: the lock is released\<close>
  from st4 have atx4: "frames x4 t = reset_Unlock e" by (simp add: s4)
  from ul atx4 have s': "s' = goto t (Await_return e) (x4\<lparr>bar := (bar x4)\<lparr>mu := False\<rparr>\<rparr>)"
    by (auto simp: defs' split: if_splits)
  have wf': "wf_state s'" using step_wf [OF run_wf [OF wf4 r4] ul] .
  have b1: "bar x1 = (bar s)\<lparr>mu := True\<rparr>" "nchan x1 = nchan s"
    using st1 by (simp_all add: s1)
  have b2: "bar x2 = (bar s)\<lparr>mu := True\<rparr>" "nchan x2 = nchan s"
    "done_ch (bar s) \<in> closed x2"
    using st2 b1 by (auto simp: s2)
  have b3: "bar x3 = (bar s)\<lparr>mu := True, done_ch := nchan s\<rparr>" "closed x2 \<subseteq> closed x3"
    using st3 b2 by (auto simp: s3)
  have b4: "bar x4 = (bar s)\<lparr>mu := True, done_ch := nchan s, count := n (bar s)\<rparr>"
    "closed x3 \<subseteq> closed x4"
    using st4 b3 by (auto simp: s4)
  have fin: "bar s' = (bar s)\<lparr>mu := False, done_ch := nchan s, count := n (bar s)\<rparr>"
    "closed s' = closed x4" "frames s' t = Await_return e"
    using b4 by (simp_all add: s')
  from wf' have "chan_ok s'" by (simp add: wf_state_def)
  then have fresh: "done_ch (bar s') \<notin> closed s'"
    using fin by (simp add: chan_ok_def)
  from b2 b3 b4 fin have opened: "done_ch (bar s) \<in> closed s'" by auto
  note alone = reset_alone [OF wf at s1(1)]
  from open0 opened fresh fin k alone show ?thesis by simp
qed

theorem reset_atomic_witness:
  "\<exists>s s'. run (arrive 0 None @ [Step 0]) (New 1 ()) = Inr s \<and>
     frames s 0 = reset_Lock None \<and>
     run (Step 0 # [Call_Await 1 None, Step 1] @ Step 0 # [Call_Abort] @ Step 0 # [] @
          Step 0 # [] @ [Step 0]) s = Inr s' \<and>
     done_ch (bar s) = 0 \<and> 0 \<in> closed s' \<and> done_ch (bar s') = 2 \<and> 2 \<notin> closed s' \<and>
     count (bar s') = 1"
proof -
  have "\<exists>s s'. run (arrive 0 None @ [Step 0]) (New 1 ()) = Inr s \<and>
     frames s 0 = reset_Lock None \<and>
     run (Step 0 # [Call_Await 1 None, Step 1] @ Step 0 # [Call_Abort] @ Step 0 # [] @
          Step 0 # [] @ [Step 0]) s = Inr s' \<and>
     done_ch (bar s) = 0 \<and> nchan s = 2"
    by (simp add: eval word_sless_alt)
  then obtain s s' where a: "run (arrive 0 None @ [Step 0]) (New 1 ()) = Inr s"
    "frames s 0 = reset_Lock None"
    "run (Step 0 # [Call_Await 1 None, Step 1] @ Step 0 # [Call_Abort] @ Step 0 # [] @
          Step 0 # [] @ [Step 0]) s = Inr s'"
    "done_ch (bar s) = 0" "nchan s = 2"
    by blast
  have others: "\<forall>a \<in> set ([Call_Await 1 None, Step 1] @ [Call_Abort] @ [] @
      ([] :: unit action list)). actor a \<noteq> Some 0"
    by simp
  from reset_atomic [OF a(1,2,3) others] a(4,5)
  have "0 \<in> closed s' \<and> done_ch (bar s') = 2 \<and> 2 \<notin> closed s' \<and> count (bar s') = 1"
    by auto
  with a show ?thesis by blast
qed

subsection \<open>C7: the range of the counter\<close>

lemma pending_own:
  assumes "misuse_pending s (frames s u)" and "step a s = Inr s'" and "actor a = Some u"
  shows "aborted s' \<or> misuse_pending s' (frames s' u)"
proof (cases a)
  case (Step t)
  with assms show ?thesis
    by (cases "frames s u") (auto simp: defs' split: if_splits)
next
  case (Call_Await t cb)
  with assms show ?thesis
    by (cases "frames s u") (auto simp: in_call_def)
next
  case (Recv_done t)
  with assms show ?thesis by (cases "frames s u") auto
next
  case (Recv_abort t)
  with assms show ?thesis by (cases "frames s u") auto
qed (use assms in auto)

lemma pending_other:
  assumes "wf_state s" and "misuse_pending s (frames s u)" and "step a s = Inr s'"
    and "actor a \<noteq> Some u"
  shows "misuse_pending s' (frames s' u)"
proof -
  have f: "frames s' u = frames s u" using step_frames_other [OF assms(3,4)] .
  show ?thesis
  proof (cases "holds_lock (frames s u)")
    case True
    from step_foreign_locked [OF assms(1) True assms(3,4)] have "bar s' = bar s" by simp
    with assms(2) f show ?thesis by (cases "frames s u") auto
  next
    case False
    with assms(2) f show ?thesis by (cases "frames s u") auto
  qed
qed

lemma exec_count:
  assumes "exec t (frames s t) s = Inr s'"
  shows "count (bar s') = count (bar s) \<or>
         (\<exists>cb. frames s' t = Await_count cb \<and> count (bar s') = count (bar s) - 1) \<or>
         count (bar s') = n (bar s)"
  using assms by (cases "frames s t") (auto simp: defs' split: if_splits option.splits)

lemma step_count:
  assumes "step a s = Inr s'"
  shows "count (bar s') = count (bar s) \<or>
         (\<exists>t cb. frames s' t = Await_count cb \<and> count (bar s') = count (bar s) - 1) \<or>
         count (bar s') = n (bar s)"
proof (cases a)
  case (Step t)
  with assms exec_count [of t s s'] show ?thesis by auto
qed (use assms in \<open>auto simp: defs' split: if_splits frame.splits\<close>)

lemma step_range_inv:
  assumes "wf_state s" and "0 \<le>s n (bar s)" and "range_inv s" and "step a s = Inr s'"
  shows "range_inv s'"
proof -
  have nn: "n (bar s') = n (bar s)" using step_fixed [OF assms(4)] by simp
  consider (ab) "aborted s" | (pend) u where "misuse_pending s (frames s u)"
    | (rng) "in_range s"
    using assms(3) by (auto simp: range_inv_def)
  then show ?thesis
  proof cases
    case ab
    then have "aborted s'" using run_aborted [of s "[a]" s'] assms(4) by simp
    then show ?thesis by (simp add: range_inv_def)
  next
    case pend
    show ?thesis
    proof (cases "actor a = Some u")
      case True
      from pending_own [OF pend assms(4) True] show ?thesis by (auto simp: range_inv_def)
    next
      case False
      from pending_other [OF assms(1) pend assms(4) False] show ?thesis
        by (auto simp: range_inv_def)
    qed
  next
    case rng
    from step_count [OF assms(4)] show ?thesis
    proof (elim disjE exE conjE)
      assume "count (bar s') = count (bar s)"
      with rng nn show ?thesis by (simp add: range_inv_def in_range_def)
    next
      fix t cb
      assume f: "frames s' t = Await_count cb" and c: "count (bar s') = count (bar s) - 1"
      from rng have "0 \<le>s count (bar s)" "count (bar s) \<le>s n (bar s)"
        by (simp_all add: in_range_def)
      from dec_in_range [OF this] show ?thesis
      proof
        assume "count (bar s) - 1 <s 0"
        with f c have "misuse_pending s' (frames s' t)" by simp
        then show ?thesis by (auto simp: range_inv_def)
      next
        assume "0 \<le>s count (bar s) - 1 \<and> count (bar s) - 1 \<le>s n (bar s)"
        with c nn show ?thesis by (simp add: range_inv_def in_range_def)
      qed
    next
      assume "count (bar s') = n (bar s)"
      with assms(2) nn show ?thesis by (simp add: range_inv_def in_range_def)
    qed
  qed
qed

lemma run_range_inv:
  assumes "wf_state s" and "0 \<le>s n (bar s)" and "range_inv s" and "run sched s = Inr s'"
  shows "range_inv s'"
  using assms
proof (induction sched arbitrary: s)
  case Nil
  then show ?case by simp
next
  case (Cons a sched)
  from Cons.prems(4) obtain s1 where a: "step a s = Inr s1" and r: "run sched s1 = Inr s'"
    by (auto split: sum.splits)
  have "0 \<le>s n (bar s1)" using step_fixed [OF a] Cons.prems(2) by simp
  from Cons.IH [OF step_wf [OF Cons.prems(1) a] this
      step_range_inv [OF Cons.prems(1,2,3) a] r]
  show ?case .
qed

text \<open>
  Claim C7 says \<open>0 \<le> remaining \<le> partySize\<close> in every reachable state that is not
  aborted. It fails between the decrement of a call that comes one too many and the
  \<^verbatim>\<open>b.Abort()\<close> of that call: party size 1, goroutine 0 decrements to 0, goroutine 1 to
  -1, and the abort channel is still open.
\<close>

theorem remaining_negative_counterexample:
  "map_sum id (count \<circ> bar) (run (arrive 0 None @ arrive 1 None) (New 1 ())) = Inr (- 1) \<and>
   map_sum id aborted (run (arrive 0 None @ arrive 1 None) (New 1 ())) = Inr False"
  by (simp add: eval word_sless_alt)

text \<open>
  Claim C7, amended. For a party size \<open>k \<ge> 0\<close>, in every reachable state in which the
  abort channel is open and no call stands between a decrement that gave a negative value
  and its \<^verbatim>\<open>b.Abort()\<close>, the counter is between 0 and the party size.
\<close>

theorem remaining_in_range:
  assumes "0 \<le>s k" and "run sched (New k w) = Inr s"
    and "\<not> aborted s" and "\<forall>t. \<not> misuse_pending s (frames s t)"
  shows "0 \<le>s count (bar s) \<and> count (bar s) \<le>s n (bar s)"
proof -
  have "range_inv (New k w :: 'a state)"
    using assms(1) by (simp add: range_inv_def in_range_def New_def)
  moreover have "0 \<le>s n (bar (New k w :: 'a state))"
    using assms(1) by (simp add: New_def)
  ultimately have "range_inv s"
    using run_range_inv [OF wf_New _ _ assms(2)] by blast
  with assms(3,4) show ?thesis by (simp add: range_inv_def in_range_def)
qed

theorem remaining_in_range_witness:
  "(0 :: 64 word) \<le>s 2 \<and>
   (\<exists>s. run [Call_Await 0 None, Step 0, Step 0, Step 0] (New 2 ()) = Inr s \<and> \<not> aborted s \<and>
        0 \<le>s count (bar s) \<and> count (bar s) \<le>s n (bar s))"
proof -
  have k: "(0 :: 64 word) \<le>s 2" by (simp add: word_sle_eq)
  have "\<exists>s. run [Call_Await 0 None, Step 0, Step 0, Step 0] (New 2 ()) = Inr s \<and> \<not> aborted s \<and>
        (\<forall>t. \<not> misuse_pending s (frames s t))"
    by (simp add: eval word_sless_alt)
  then obtain s :: "unit state"
    where a: "run [Call_Await 0 None, Step 0, Step 0, Step 0] (New 2 ()) = Inr s"
      "\<not> aborted s" "\<forall>t. \<not> misuse_pending s (frames s t)"
    by blast
  from remaining_in_range [OF k a] a k show ?thesis by blast
qed

subsection \<open>C8: the verdicts of the waiters of one round\<close>

lemma waiter_step:
  assumes "step a x = Inr y" and "\<forall>cb'. a \<noteq> Call_Await t cb'"
    and "waiting (frames x t) \<or> frames x t = Returned r"
  shows "waiting (frames y t) \<or> frames y t = Returned r \<or>
         (waiting (frames x t) \<and>
          frames y t = Returned (if aborted x then Some ErrBarrierAborted else None))"
proof (cases "actor a = Some t")
  case False
  with step_frames_other [OF assms(1), of t] assms(3) show ?thesis by auto
next
  case True
  show ?thesis
  proof (cases a)
    case (Call_Await u cb)
    with True assms(2) show ?thesis by simp
  next
    case Call_Abort
    with True show ?thesis by simp
  next
    case (Step u)
    with True assms(1,3) show ?thesis
      by (cases "frames x t") (auto split: if_splits)
  next
    case (Recv_done u)
    with True assms(1,3) show ?thesis
      by (cases "frames x t") (auto split: if_splits)
  next
    case (Recv_abort u)
    with True assms(1,3) show ?thesis
      by (cases "frames x t") (auto split: if_splits)
  qed
qed

lemma waiter_run_aborted:
  assumes "run sched s = Inr s'" and "aborted s"
    and "waiting (frames s t) \<or> frames s t = Returned (Some ErrBarrierAborted)"
    and "\<forall>a \<in> set sched. \<forall>cb'. a \<noteq> Call_Await t cb'"
  shows "waiting (frames s' t) \<or> frames s' t = Returned (Some ErrBarrierAborted)"
  using assms
proof (induction sched arbitrary: s)
  case Nil
  then show ?case by simp
next
  case (Cons a sched)
  from Cons.prems(1) obtain s1 where a: "step a s = Inr s1" and r: "run sched s1 = Inr s'"
    by (auto split: sum.splits)
  from Cons.prems(4) have na: "\<forall>cb'. a \<noteq> Call_Await t cb'"
    and nr: "\<forall>a \<in> set sched. \<forall>cb'. a \<noteq> Call_Await t cb'" by auto
  from waiter_step [OF a na Cons.prems(3)] Cons.prems(2)
  have "waiting (frames s1 t) \<or> frames s1 t = Returned (Some ErrBarrierAborted)" by auto
  moreover have "aborted s1" using run_aborted [OF Cons.prems(2), of "[a]" s1] a by simp
  ultimately show ?case using Cons.IH [OF r _ _ nr] by blast
qed

lemma waiter_run_not_aborted:
  assumes "run sched s = Inr s'" and "\<not> aborted s'"
    and "waiting (frames s t) \<or> frames s t = Returned None"
    and "\<forall>a \<in> set sched. \<forall>cb'. a \<noteq> Call_Await t cb'"
  shows "waiting (frames s' t) \<or> frames s' t = Returned None"
  using assms
proof (induction sched arbitrary: s)
  case Nil
  then show ?case by simp
next
  case (Cons a sched)
  from Cons.prems(1) obtain s1 where a: "step a s = Inr s1" and r: "run sched s1 = Inr s'"
    by (auto split: sum.splits)
  from Cons.prems(4) have na: "\<forall>cb'. a \<noteq> Call_Await t cb'"
    and nr: "\<forall>a \<in> set sched. \<forall>cb'. a \<noteq> Call_Await t cb'" by auto
  have "\<not> aborted s" using run_not_aborted [OF Cons.prems(2,1)] .
  with waiter_step [OF a na Cons.prems(3)]
  have "waiting (frames s1 t) \<or> frames s1 t = Returned None" by auto
  from Cons.IH [OF r Cons.prems(2) this nr] show ?case .
qed

text \<open>
  Claim C8 says that the waiters of one round all succeed or all fail. Party size 3:
  goroutines 0 and 1 wait on the same round channel, goroutine 2 completes the round;
  goroutine 0 wakes, finds the abort channel open and returns nil; then \<^verbatim>\<open>Abort()\<close> is
  called; goroutine 1 wakes, finds it closed and returns \<^verbatim>\<open>ErrBarrierAborted\<close>.
\<close>

theorem waiters_disagree_counterexample:
  "map_sum id (frame_of 0) (run (arrive 0 None @ arrive 1 None) (New 3 ())) =
     Inr (wait_select 0) \<and>
   map_sum id (frame_of 1) (run (arrive 0 None @ arrive 1 None) (New 3 ())) =
     Inr (wait_select 0) \<and>
   map_sum id (frame_of 0)
     (run (arrive 0 None @ arrive 1 None @ arrive 2 None @ complete 2 @
           [Recv_done 0, Step 0, Call_Abort, Recv_done 1, Step 1]) (New 3 ())) =
     Inr (Returned None) \<and>
   map_sum id (frame_of 1)
     (run (arrive 0 None @ arrive 1 None @ arrive 2 None @ complete 2 @
           [Recv_done 0, Step 0, Call_Abort, Recv_done 1, Step 1]) (New 3 ())) =
     Inr (Returned (Some ErrBarrierAborted))"
  by (simp add: eval word_sless_alt)

text \<open>
  Claim C8, amended. Take two goroutines that are waiting in a state \<open>s\<close> and have both
  returned in a later state \<open>s'\<close>, without calling \<^verbatim>\<open>Await\<close> again in between. If the abort
  channel was closed in \<open>s\<close> already, both have returned \<^verbatim>\<open>ErrBarrierAborted\<close>; if it is
  still open in \<open>s'\<close>, both have returned nil. Two waiters can only disagree when the abort
  channel is closed after they have begun to wait and before both have returned.
\<close>

theorem waiters_agree:
  assumes "waiting (frames s t)" and "waiting (frames s u)"
    and "run sched s = Inr s'"
    and "frames s' t = Returned r" and "frames s' u = Returned r'"
    and "\<forall>a \<in> set sched. \<forall>cb'. a \<noteq> Call_Await t cb' \<and> a \<noteq> Call_Await u cb'"
  shows "(aborted s \<longrightarrow> r = Some ErrBarrierAborted \<and> r' = Some ErrBarrierAborted) \<and>
         (\<not> aborted s' \<longrightarrow> r = None \<and> r' = None)"
proof -
  from assms(6) have nt: "\<forall>a \<in> set sched. \<forall>cb'. a \<noteq> Call_Await t cb'"
    and nu: "\<forall>a \<in> set sched. \<forall>cb'. a \<noteq> Call_Await u cb'" by auto
  show ?thesis
    using waiter_run_aborted [OF assms(3) _ _ nt] waiter_run_aborted [OF assms(3) _ _ nu]
      waiter_run_not_aborted [OF assms(3) _ _ nt] waiter_run_not_aborted [OF assms(3) _ _ nu]
      assms(1,2,4,5)
    by auto
qed

theorem waiters_agree_witness:
  "\<exists>s s'. run (arrive 0 None @ arrive 1 None) (New 3 ()) = Inr s \<and>
     waiting (frames s 0) \<and> waiting (frames s 1) \<and>
     run (arrive 2 None @ complete 2 @ [Recv_done 0, Step 0, Recv_done 1, Step 1]) s = Inr s' \<and>
     \<not> aborted s' \<and> frames s' 0 = Returned None \<and> frames s' 1 = Returned None"
proof -
  have "\<exists>s s' r r'. run (arrive 0 None @ arrive 1 None) (New 3 ()) = Inr s \<and>
     waiting (frames s 0) \<and> waiting (frames s 1) \<and>
     run (arrive 2 None @ complete 2 @ [Recv_done 0, Step 0, Recv_done 1, Step 1]) s = Inr s' \<and>
     \<not> aborted s' \<and> frames s' 0 = Returned r \<and> frames s' 1 = Returned r'"
    by (simp add: eval word_sless_alt)
  then obtain s s' :: "unit state" and r r'
    where a: "run (arrive 0 None @ arrive 1 None) (New 3 ()) = Inr s"
      "waiting (frames s 0)" "waiting (frames s 1)"
      "run (arrive 2 None @ complete 2 @ [Recv_done 0, Step 0, Recv_done 1, Step 1]) s = Inr s'"
      "\<not> aborted s'" "frames s' 0 = Returned r" "frames s' 1 = Returned r'"
    by blast
  have calls: "\<forall>a \<in> set (arrive 2 None @ complete 2 @
      [Recv_done 0, Step 0, Recv_done 1, Step 1 :: unit action]).
      \<forall>cb'. a \<noteq> Call_Await 0 cb' \<and> a \<noteq> Call_Await 1 cb'"
    by (simp add: arrive_def complete_def)
  from waiters_agree [OF a(2,3,4,6,7) calls] a(5) have "r = None \<and> r' = None" by simp
  with a show ?thesis by blast
qed

subsection \<open>C9: the party size\<close>

text \<open>
  Claim C9. No statement assigns to \<^verbatim>\<open>b.n\<close>: in every state reachable from \<^verbatim>\<open>New(k)\<close>,
  by any schedule, the party size is \<open>k\<close>.
\<close>

theorem party_size_fixed: "run sched (New k w) = Inr s \<Longrightarrow> n (bar s) = k"
  using run_fixed [of sched "New k w" s] by (simp add: New_def)

theorem party_size_fixed_witness:
  "\<exists>s. run (arrive 0 None @ arrive 1 None @ complete 1) (New 2 ()) = Inr s \<and> n (bar s) = 2"
proof -
  have "\<exists>s. run (arrive 0 None @ arrive 1 None @ complete 1) (New 2 ()) = Inr s"
    by (simp add: eval word_sless_alt)
  then obtain s where r: "run (arrive 0 None @ arrive 1 None @ complete 1) (New 2 ()) = Inr s" ..
  from party_size_fixed [OF r] r show ?thesis by blast
qed

subsection \<open>C10: a party size that is not positive\<close>

lemma misuse_only_own:
  assumes "misuse_only s (frames s t)" and "exec t (frames s t) s = Inr s'"
    and "sint (count (bar s)) \<le> 0" and "- (2 ^ 63) < sint (count (bar s))"
  shows "misuse_only s' (frames s' t) \<and>
         (count (bar s') = count (bar s) \<or> count (bar s') = count (bar s) - 1)"
  using assms sint_dec [OF assms(4)]
  by (cases "frames s t") (auto simp: defs' word_sless_alt split: if_splits)

lemma misuse_only_mono:
  assumes "misuse_only s f" and "count (bar s) <s 0 \<longrightarrow> count (bar s') <s 0"
  shows "misuse_only s' f"
  using assms by (cases f) auto

lemma step_below:
  assumes "below k m s" and "k \<le>s 0" and "int (Suc m) < 2 ^ 63 + sint k"
    and "step a s = Inr s'"
  shows "below k (Suc m) s'"
proof -
  from assms(1) have lo: "sint k - int m \<le> sint (count (bar s))"
    and hi: "sint (count (bar s)) \<le> sint k" and fr: "\<And>t. misuse_only s (frames s t)"
    by (simp_all add: below_def)
  from assms(2) have k0: "sint k \<le> 0" by (simp add: word_sle_eq)
  from lo assms(3) have nw: "- (2 ^ 63) < sint (count (bar s))" by simp
  from hi k0 have c0: "sint (count (bar s)) \<le> 0" by simp
  note dec = sint_dec [OF nw]
  have main: "(count (bar s') = count (bar s) \<or> count (bar s') = count (bar s) - 1) \<and>
              (\<forall>u. misuse_only s' (frames s' u))"
  proof (cases a)
    case (Step t)
    with assms(4) have e: "exec t (frames s t) s = Inr s'" by simp
    note own = misuse_only_own [OF fr e c0 nw]
    then have cc: "count (bar s) <s 0 \<longrightarrow> count (bar s') <s 0"
      using dec by (auto simp: word_sless_alt)
    have "misuse_only s' (frames s' u)" for u
    proof (cases "u = t")
      case True
      with own show ?thesis by simp
    next
      case False
      with exec_frames_other [OF e] have "frames s' u = frames s u" by simp
      with misuse_only_mono [OF fr cc, of u] show ?thesis by simp
    qed
    with own show ?thesis by simp
  next
    case (Call_Await t cb)
    with assms(4) have s': "s' = goto t (Await_aborted cb) s" by (auto split: if_splits)
    have "misuse_only s' (frames s' u)" for u
      using misuse_only_mono [OF fr, of s' u] by (simp add: s')
    then show ?thesis by (simp add: s')
  next
    case Call_Abort
    with assms(4) have s': "s' = s\<lparr>closed := insert (abort (bar s)) (closed s)\<rparr>"
      by (auto simp: defs' split: if_splits)
    have "misuse_only s' (frames s' u)" for u
      using misuse_only_mono [OF fr, of s' u] by (simp add: s')
    then show ?thesis by (simp add: s')
  next
    case (Recv_done t)
    with assms(4) fr [of t] show ?thesis by (cases "frames s t") auto
  next
    case (Recv_abort t)
    with assms(4) fr [of t] show ?thesis by (cases "frames s t") auto
  qed
  with lo hi dec show ?thesis by (auto simp: below_def)
qed

lemma run_below:
  assumes "below k m s" and "k \<le>s 0" and "int (m + length sched) < 2 ^ 63 + sint k"
    and "run sched s = Inr s'"
  shows "below k (m + length sched) s'"
  using assms
proof (induction sched arbitrary: s m)
  case Nil
  then show ?case by simp
next
  case (Cons a sched)
  from Cons.prems(4) obtain s1 where a: "step a s = Inr s1" and r: "run sched s1 = Inr s'"
    by (auto split: sum.splits)
  from Cons.prems(3) have b1: "int (Suc m) < 2 ^ 63 + sint k"
    and b2: "int (Suc m + length sched) < 2 ^ 63 + sint k" by simp_all
  from Cons.IH [OF step_below [OF Cons.prems(1,2) b1 a] Cons.prems(2) b2 r]
  show ?case by simp
qed

lemma below_New: "below k 0 (New k w)"
  by (simp add: below_def New_def)

text \<open>
  Claim C10 says that on a barrier made with a party size \<open>\<le> 0\<close> the first call
  returns \<^verbatim>\<open>ErrBarrierMisused\<close>. With the least \<^verbatim>\<open>int64\<close>, \<open>- 2 ^ 63\<close>, the decrement
  wraps around to \<open>2 ^ 63 - 1\<close>, which is positive: the first call goes to \<^verbatim>\<open>wait\<close>
  and blocks there, on two open channels.
\<close>

theorem min_party_size_counterexample:
  "map_sum id (frame_of 0) (run (arrive 0 None) (New (- (2 ^ 63)) ())) = Inr (wait_select 0) \<and>
   map_sum id aborted (run (arrive 0 None) (New (- (2 ^ 63)) ())) = Inr False \<and>
   run (arrive 0 None @ [Recv_done 0]) (New (- (2 ^ 63)) ()) = Inl Blocked \<and>
   run (arrive 0 None @ [Recv_abort 0]) (New (- (2 ^ 63)) ()) = Inl Blocked"
  by (simp add: eval word_sless_alt)

text \<open>
  Claim C10, amended. \<^verbatim>\<open>New\<close> accepts every party size. For \<open>- 2 ^ 63 < k \<le> 0\<close> a first call
  that runs alone finds a negative counter, closes the abort channel and returns
  \<^verbatim>\<open>ErrBarrierMisused\<close>. For \<open>k \<le> 0\<close>, in every execution of fewer than \<open>2 ^ 63 + k\<close>
  statements (which keeps the counter from wrapping around), no goroutine is ever in
  \<^verbatim>\<open>wait\<close>, at the callback, in \<^verbatim>\<open>reset\<close> or at \<^verbatim>\<open>return err\<close>, and every call that has
  returned has returned \<^verbatim>\<open>ErrBarrierAborted\<close> or \<^verbatim>\<open>ErrBarrierMisused\<close>: no round is
  completed and no call succeeds.
\<close>

theorem nonpositive_party_size:
  assumes "k \<le>s 0"
  shows "(k \<noteq> - (2 ^ 63) \<longrightarrow>
           (\<exists>s'. run (Call_Await t cb # [Step t, Step t, Step t, Step t, Step t, Step t, Step t, Step t, Step t]) (New k w) = Inr s' \<and>
                 frames s' t = Returned (Some ErrBarrierMisused) \<and> aborted s' \<and>
                 count (bar s') <s 0)) \<and>
         (run sched (New k w) = Inr s \<longrightarrow> int (length sched) < 2 ^ 63 + sint k \<longrightarrow>
           \<not> waiting (frames s u) \<and> \<not> completing (frames s u) \<and>
           (\<forall>r. frames s u = Returned r \<longrightarrow>
                r = Some ErrBarrierAborted \<or> r = Some ErrBarrierMisused) \<and>
           sint (count (bar s)) \<le> sint k)"
proof (intro conjI impI)
  assume nm: "k \<noteq> - (2 ^ 63)"
  from assms have "sint k \<le> 0" by (simp add: word_sle_eq)
  moreover have "sint k \<noteq> - (2 ^ 63)"
  proof
    assume "sint k = - (2 ^ 63)"
    then have "sint k = sint (- (2 ^ 63) :: 64 word)" by (simp only: sint_min64)
    then have "k = - (2 ^ 63)" by (rule signed_word_eqI)
    with nm show False by simp
  qed
  moreover have "- (2 ^ 63) \<le> sint k" using sint_ge [of k] by simp
  ultimately have "- (2 ^ 63) < sint k" by simp
  from sint_dec [OF this] \<open>sint k \<le> 0\<close> have neg: "k - 1 <s 0"
    by (simp add: word_sless_alt)
  then show "\<exists>s'. run (Call_Await t cb # [Step t, Step t, Step t, Step t, Step t, Step t, Step t, Step t, Step t]) (New k w) = Inr s' \<and>
                 frames s' t = Returned (Some ErrBarrierMisused) \<and> aborted s' \<and>
                 count (bar s') <s 0"
    by (simp add: New_def in_call_def defs')
next
  assume r: "run sched (New k w) = Inr s" and b: "int (length sched) < 2 ^ 63 + sint k"
  from run_below [OF below_New assms _ r] b have bl: "below k (length sched) s" by simp
  then have m: "misuse_only s (frames s u)" and c: "sint (count (bar s)) \<le> sint k"
    by (simp_all add: below_def)
  from m show "\<not> waiting (frames s u)" by (cases "frames s u") auto
  from m show "\<not> completing (frames s u)" by (cases "frames s u") auto
  from m show "\<forall>r. frames s u = Returned r \<longrightarrow>
                r = Some ErrBarrierAborted \<or> r = Some ErrBarrierMisused"
    by (cases "frames s u") auto
  from c show "sint (count (bar s)) \<le> sint k" .
qed

theorem nonpositive_party_size_witness:
  "(0 :: 64 word) \<le>s 0 \<and> (0 :: 64 word) \<noteq> - (2 ^ 63) \<and>
   (\<exists>s'. run (Call_Await 0 None #
             [Step 0, Step 0, Step 0, Step 0, Step 0, Step 0, Step 0, Step 0, Step 0])
           (New 0 ()) = Inr s' \<and>
         frames s' 0 = Returned (Some ErrBarrierMisused) \<and> aborted s') \<and>
   (\<exists>s. run (arrive 0 None @ arrive 1 None) (New 0 ()) = Inr s \<and>
        \<not> waiting (frames s 1) \<and> \<not> completing (frames s 1))"
proof -
  have k: "(0 :: 64 word) \<le>s 0" by simp
  have m: "(0 :: 64 word) \<noteq> - (2 ^ 63)" by simp
  have "\<exists>s. run (arrive 0 None @ arrive 1 None) (New 0 ()) = Inr s"
    by (simp add: eval word_sless_alt)
  then obtain s :: "unit state"
    where r: "run (arrive 0 None @ arrive 1 None) (New 0 ()) = Inr s" ..
  have b: "int (length (arrive 0 None @ arrive 1 None :: unit action list)) <
      2 ^ 63 + sint (0 :: 64 word)"
    by (simp add: arrive_def)
  from nonpositive_party_size [OF k, of 0 None "()" "arrive 0 None @ arrive 1 None" s 1] m r b
  show ?thesis using k by blast
qed

end
